theory Spec2Isabelle
  imports Main
begin

section \<open>Package lru: the recency cache\<close>

text \<open>
  Go values of type \<open>interface{}\<close> are modelled as \<open>'v option\<close>, with \<open>None\<close> the nil
  interface.

  A \<open>Key\<close> may be any comparable Go value. Go's \<open>==\<close> on such values is symmetric and
  transitive, but a value need not equal itself: a floating-point NaN (or an array or
  struct that holds one) equals nothing. \<open>Key x\<close> stands for the values that equal
  themselves, taken up to \<open>==\<close>, so that on them \<open>==\<close> is equality of \<open>x\<close>; \<open>NaN\<close>
  stands for the values that do not.
\<close>

datatype 'k Key = Key 'k | NaN

definition go_eq :: "'k Key \<Rightarrow> 'k Key \<Rightarrow> bool" where
  "go_eq a b = (a = b \<and> a \<noteq> NaN)"

text \<open>
  A Go map from keys to element pointers is the list of its bindings. \<open>m[k]\<close> finds the
  binding whose key is \<open>==\<close> to \<open>k\<close>; \<open>m[k] = a\<close> replaces the value of that binding
  or, when there is none, adds a binding; \<open>delete(m, k)\<close> removes that binding;
  \<open>len(m)\<close> is the number of bindings. So a key that does not equal itself is never
  found, every assignment under it adds a binding, and no \<open>delete\<close> removes one.
\<close>

definition map_index :: "('k Key \<times> nat) list \<Rightarrow> 'k Key \<Rightarrow> nat option" where
  "map_index mp k = map_option snd (find (\<lambda>b. go_eq (fst b) k) mp)"

definition map_assign :: "('k Key \<times> nat) list \<Rightarrow> 'k Key \<Rightarrow> nat \<Rightarrow> ('k Key \<times> nat) list" where
  "map_assign mp k a =
     (if map_index mp k = None then mp @ [(k, a)]
      else map (\<lambda>b. if go_eq (fst b) k then (fst b, a) else b) mp)"

definition map_delete :: "('k Key \<times> nat) list \<Rightarrow> 'k Key \<Rightarrow> ('k Key \<times> nat) list" where
  "map_delete mp k = filter (\<lambda>b. \<not> go_eq (fst b) k) mp"

text \<open>
  The standard library's \<open>container/list\<close> is a doubly linked list of heap cells. A
  \<open>*list.Element\<close> is an address (a natural number); the heap \<open>elems\<close> holds, at each
  address, the \<open>entry\<close> the element's \<open>Value\<close> points to; the list itself is the sequence
  of the addresses of its elements, front first. Cells are allocated at the end of the
  heap and never reclaimed, so a removed element keeps its contents, as it does in Go
  while a pointer to it is alive.
\<close>

datatype panic = NilDereference | InvalidPointer

record ('k, 'v) entry =
  key :: "'k Key"
  value' :: "'v option"

text \<open>
  The four fields of \<open>Cache\<close>, and two components of the world around it: the heap of
  list elements, and the record of the calls made to the \<open>OnEvicted\<close> callback (oldest
  first). \<open>OnEvicted\<close> is \<open>True\<close> when the field holds a function; the function is taken
  to observe its arguments without calling back into the cache. A nil \<open>ll\<close> or \<open>cache\<close>
  is \<open>None\<close>.
\<close>

record ('k, 'v) Cache =
  MaxEntries :: int
  OnEvicted :: bool
  ll :: "nat list option"
  cache :: "('k Key \<times> nat) list option"
  elems :: "('k, 'v) entry list"
  evicted :: "('k Key \<times> 'v option) list"

definition New :: "int \<Rightarrow> ('k, 'v) Cache" where
  "New maxEntries =
     \<lparr>MaxEntries = maxEntries, OnEvicted = False, ll = Some [], cache = Some [],
      elems = [], evicted = []\<rparr>"

text \<open>The zero value of the struct, for a cache that was not built with \<open>New\<close>.\<close>

definition zero_Cache :: "('k, 'v) Cache" where
  "zero_Cache =
     \<lparr>MaxEntries = 0, OnEvicted = False, ll = None, cache = None, elems = [], evicted = []\<rparr>"

subsection \<open>The operations of container/list that the cache uses\<close>

text \<open>\<open>MoveToFront\<close> leaves the list alone when the element is not in it.\<close>

definition MoveToFront :: "nat \<Rightarrow> nat list \<Rightarrow> nat list" where
  "MoveToFront e l = (if e \<in> set l then e # remove1 e l else l)"

text \<open>\<open>Back\<close> is the last element, or nil for an empty list.\<close>

definition Back :: "nat list \<Rightarrow> nat option" where
  "Back l = (if l = [] then None else Some (last l))"

subsection \<open>The methods of Cache\<close>

definition removeElement :: "nat \<Rightarrow> ('k, 'v) Cache \<Rightarrow> panic + ('k, 'v) Cache" where
  "removeElement e c =
     (case ll c of
        None \<Rightarrow> Inl NilDereference
      | Some l \<Rightarrow>
          if length (elems c) \<le> e then Inl InvalidPointer
          else
            let kv = elems c ! e;
                c1 = c\<lparr>ll := Some (remove1 e l),
                       cache := map_option (\<lambda>mp. map_delete mp (key kv)) (cache c)\<rparr>
            in Inr (if OnEvicted c1
                    then c1\<lparr>evicted := evicted c1 @ [(key kv, value' kv)]\<rparr>
                    else c1))"

definition RemoveOldest :: "('k, 'v) Cache \<Rightarrow> panic + ('k, 'v) Cache" where
  "RemoveOldest c =
     (if cache c = None then Inr c
      else case ll c of
             None \<Rightarrow> Inl NilDereference
           | Some l \<Rightarrow>
               (case Back l of
                  None \<Rightarrow> Inr c
                | Some ele \<Rightarrow> removeElement ele c))"

definition Add :: "'k Key \<Rightarrow> 'v option \<Rightarrow> ('k, 'v) Cache \<Rightarrow> panic + ('k, 'v) Cache" where
  "Add k v c0 =
     (let c = (if cache c0 = None then c0\<lparr>cache := Some [], ll := Some []\<rparr> else c0)
      in case (cache c, ll c) of
           (Some mp, Some l) \<Rightarrow>
             (case map_index mp k of
                Some ee \<Rightarrow>
                  if length (elems c) \<le> ee then Inl InvalidPointer
                  else Inr (c\<lparr>ll := Some (MoveToFront ee l),
                              elems := (elems c)[ee := (elems c ! ee)\<lparr>value' := v\<rparr>]\<rparr>)
              | None \<Rightarrow>
                  let ele = length (elems c);
                      c1 = c\<lparr>elems := elems c @ [\<lparr>key = k, value' = v\<rparr>],
                             ll := Some (ele # l),
                             cache := Some (map_assign mp k ele)\<rparr>
                  in if MaxEntries c1 \<noteq> 0 \<and> int (length (ele # l)) > MaxEntries c1
                     then RemoveOldest c1
                     else Inr c1)
         | _ \<Rightarrow> Inl NilDereference)"

text \<open>\<open>Get\<close> returns the pair \<open>(value, ok)\<close> and the cache after the call.\<close>

definition Get ::
  "'k Key \<Rightarrow> ('k, 'v) Cache \<Rightarrow> panic + (('v option \<times> bool) \<times> ('k, 'v) Cache)" where
  "Get k c =
     (case cache c of
        None \<Rightarrow> Inr ((None, False), c)
      | Some mp \<Rightarrow>
          (case map_index mp k of
             Some ele \<Rightarrow>
               (case ll c of
                  None \<Rightarrow> Inl NilDereference
                | Some l \<Rightarrow>
                    if length (elems c) \<le> ele then Inl InvalidPointer
                    else Inr ((value' (elems c ! ele), True), c\<lparr>ll := Some (MoveToFront ele l)\<rparr>))
           | None \<Rightarrow> Inr ((None, False), c)))"

definition Remove :: "'k Key \<Rightarrow> ('k, 'v) Cache \<Rightarrow> panic + ('k, 'v) Cache" where
  "Remove k c =
     (case cache c of
        None \<Rightarrow> Inr c
      | Some mp \<Rightarrow>
          (case map_index mp k of
             Some ele \<Rightarrow> removeElement ele c
           | None \<Rightarrow> Inr c))"

definition Len :: "('k, 'v) Cache \<Rightarrow> panic + int" where
  "Len c =
     (if cache c = None then Inr 0
      else case ll c of
             None \<Rightarrow> Inl NilDereference
           | Some l \<Rightarrow> Inr (int (length l)))"

subsection \<open>Client programs: sequences of calls\<close>

datatype ('k, 'v) op =
  OpAdd "'k Key" "'v option" | OpGet "'k Key" | OpRemove "'k Key" | OpRemoveOldest | OpLen

fun apply_op :: "('k, 'v) op \<Rightarrow> ('k, 'v) Cache \<Rightarrow> panic + ('k, 'v) Cache" where
  "apply_op (OpAdd k v) c = Add k v c"
| "apply_op (OpGet k) c = (case Get k c of Inl p \<Rightarrow> Inl p | Inr (r, c') \<Rightarrow> Inr c')"
| "apply_op (OpRemove k) c = Remove k c"
| "apply_op OpRemoveOldest c = RemoveOldest c"
| "apply_op OpLen c = (case Len c of Inl p \<Rightarrow> Inl p | Inr n \<Rightarrow> Inr c)"

fun run_ops :: "('k, 'v) op list \<Rightarrow> ('k, 'v) Cache \<Rightarrow> panic + ('k, 'v) Cache" where
  "run_ops [] c = Inr c"
| "run_ops (x # xs) c = (case apply_op x c of Inl p \<Rightarrow> Inl p | Inr c' \<Rightarrow> run_ops xs c')"

subsection \<open>Consistency of the lookup map and the recency sequence\<close>

text \<open>
  The map, read through \<open>m[k]\<close>, and the list describe the same elements: the list has
  no element twice, every element of the list is a cell of the heap and, when its key
  equals itself, the map sends its key back to it, and every key the map finds points to
  an element of the list that carries this key.
\<close>

definition linked :: "('k, 'v) entry list \<Rightarrow> ('k Key \<rightharpoonup> nat) \<Rightarrow> nat list \<Rightarrow> bool" where
  "linked h f l =
     (distinct l \<and> f NaN = None \<and>
      (\<forall>a \<in> set l. a < length h \<and> (key (h ! a) \<noteq> NaN \<longrightarrow> f (key (h ! a)) = Some a)) \<and>
      (\<forall>k a. f k = Some a \<longrightarrow> a \<in> set l \<and> key (h ! a) = k))"

text \<open>The keys of the recency sequence, front first.\<close>

definition keys_of :: "('k, 'v) Cache \<Rightarrow> 'k Key list" where
  "keys_of c = (case ll c of None \<Rightarrow> [] | Some l \<Rightarrow> map (\<lambda>a. key (elems c ! a)) l)"

text \<open>
  A cache is consistent when map and list are linked, no key that equals itself is bound
  twice in the map, and the map has as many bindings as the list has elements, counting
  on both sides the keys that equal themselves. (When no key is a NaN, that is: the size
  of the map is the length of the list.)
\<close>

definition consistent :: "('k, 'v) Cache \<Rightarrow> bool" where
  "consistent c =
     (case (cache c, ll c) of
        (Some mp, Some l) \<Rightarrow>
          linked (elems c) (map_index mp) l \<and>
          distinct (filter (\<lambda>k. k \<noteq> NaN) (map fst mp)) \<and>
          length (filter (\<lambda>k. k \<noteq> NaN) (map fst mp)) =
          length (filter (\<lambda>k. k \<noteq> NaN) (keys_of c))
      | (None, None) \<Rightarrow> True
      | _ \<Rightarrow> False)"

text \<open>
  Recency of access. A call accesses a key when it is an \<open>Add\<close> or a \<open>Get\<close> of that
  key. The age of a key, in a history of calls given latest first, is the number of calls
  made since the key was last accessed (the length of the history when it never was).
  Descending recency is ascending age.
\<close>

fun accesses :: "('k, 'v) op \<Rightarrow> 'k Key \<Rightarrow> bool" where
  "accesses (OpAdd k v) k' = (k = k')"
| "accesses (OpGet k) k' = (k = k')"
| "accesses (OpRemove k) k' = False"
| "accesses OpRemoveOldest k' = False"
| "accesses OpLen k' = False"

fun age :: "'k Key \<Rightarrow> ('k, 'v) op list \<Rightarrow> nat" where
  "age k [] = 0"
| "age k (x # xs) = (if accesses x k then 0 else Suc (age k xs))"

definition by_recency :: "('k, 'v) op list \<Rightarrow> 'k Key list \<Rightarrow> bool" where
  "by_recency ops ks = sorted_wrt (<) (map (\<lambda>k. age k (rev ops)) ks)"

text \<open>The calls of a program that add a key that does not equal itself.\<close>

fun adds_NaN :: "('k, 'v) op \<Rightarrow> bool" where
  "adds_NaN (OpAdd k v) = (k = NaN)"
| "adds_NaN (OpGet k) = False"
| "adds_NaN (OpRemove k) = False"
| "adds_NaN OpRemoveOldest = False"
| "adds_NaN OpLen = False"

section \<open>Package singleflight: duplicate call suppression\<close>

text \<open>
  \<open>Group.Do\<close> is run by several goroutines at once, so it is modelled as a transition
  system: each goroutine that calls \<open>Do\<close> has a frame with a program counter, its
  argument \<open>key\<close> and its locals, and one step of one goroutine executes one statement
  of \<open>Do\<close>. The program counter is the line of the source the goroutine executes next.
  A scheduler is a list of goroutine numbers; every interleaving of the statements is
  some scheduler. The program has no data race (the map is accessed under \<open>g.mu\<close>, the
  fields of a call are written before \<open>wg.Done\<close> and read after \<open>wg.Wait\<close>), so
  interleaving whole statements loses no behaviour.

  A \<open>call\<close> is a heap object; a \<open>*call\<close> is its index in the heap \<open>calls\<close>. The
  \<open>WaitGroup\<close> is its counter. The two variables named \<open>c\<close> in the source, the one
  declared by the \<open>if\<close> of line 57 and the one declared on line 63, are \<open>c57\<close> and \<open>c63\<close>.

  The wrapped function is taken to return: its \<open>n\<close>-th execution (counting from 0, over
  all goroutines) yields the pair \<open>fn n\<close>, and \<open>nfn\<close> counts the executions so far, as a
  function that increments a shared counter would.
\<close>

record ('v, 'e) call =
  wg :: nat
  val :: "'v option"
  err :: "'e option"

datatype label =
  L52 | L53 | L57 | L58 | L59 | L60 | L63 | L64 | L65 | L66 | L69 | L70 | L73 | L74 | L75 | L78
  | Returned | Panicked

record ('v, 'e) frame =
  pc :: label
  Do_key :: string
  c57 :: "nat option"
  c63 :: "nat option"
  ret :: "('v option \<times> 'e option) option"

text \<open>The fields \<open>mu\<close> and \<open>m\<close> of the \<open>Group\<close>, the heap, the counter of \<open>fn\<close>, the goroutines.\<close>

record ('v, 'e) world =
  mu :: bool
  m :: "(string \<rightharpoonup> nat) option"
  calls :: "('v, 'e) call list"
  nfn :: nat
  threads :: "('v, 'e) frame list"

text \<open>Goroutines about to enter \<open>Do\<close> on a zero \<open>Group\<close>, one for each key of the list.\<close>

definition init :: "string list \<Rightarrow> ('v, 'e) world" where
  "init keys =
     \<lparr>mu = False, m = None, calls = [], nfn = 0,
      threads = map (\<lambda>k. \<lparr>pc = L52, Do_key = k, c57 = None, c63 = None, ret = None\<rparr>) keys\<rparr>"

text \<open>
  A pointer that can be dereferenced: not nil, and a cell of the heap. Go has no other
  pointers; the second test only keeps the model away from reading outside the list.
\<close>

definition deref :: "('v, 'e) world \<Rightarrow> nat option \<Rightarrow> nat option" where
  "deref s p = (case p of None \<Rightarrow> None | Some a \<Rightarrow> if a < length (calls s) then Some a else None)"

definition panics :: "('v, 'e) frame \<Rightarrow> ('v, 'e) world \<Rightarrow> (('v, 'e) frame \<times> ('v, 'e) world) option" where
  "panics t s = Some (t\<lparr>pc := Panicked\<rparr>, s)"

text \<open>\<open>Lock\<close> blocks (no step) while the mutex is held; \<open>Unlock\<close> of a free mutex is fatal.\<close>

definition Lock ::
  "label \<Rightarrow> ('v, 'e) frame \<Rightarrow> ('v, 'e) world \<Rightarrow> (('v, 'e) frame \<times> ('v, 'e) world) option" where
  "Lock next t s = (if mu s then None else Some (t\<lparr>pc := next\<rparr>, s\<lparr>mu := True\<rparr>))"

definition Unlock ::
  "label \<Rightarrow> ('v, 'e) frame \<Rightarrow> ('v, 'e) world \<Rightarrow> (('v, 'e) frame \<times> ('v, 'e) world) option" where
  "Unlock next t s = (if mu s then Some (t\<lparr>pc := next\<rparr>, s\<lparr>mu := False\<rparr>) else panics t s)"

text \<open>
  The statement at the program counter of frame \<open>t\<close>, executed in world \<open>s\<close>: the frame
  and the world after it. \<open>None\<close>: the goroutine cannot move (it is blocked in \<open>Lock\<close> or
  \<open>Wait\<close>, or it has returned or panicked).
\<close>

definition stmt ::
  "(nat \<Rightarrow> 'v option \<times> 'e option) \<Rightarrow> ('v, 'e) frame \<Rightarrow> ('v, 'e) world \<Rightarrow>
   (('v, 'e) frame \<times> ('v, 'e) world) option" where
  "stmt fn t s =
     (case pc t of
        L52 \<Rightarrow> Lock L53 t s
      | L53 \<Rightarrow> Some (t\<lparr>pc := L57\<rparr>, if m s = None then s\<lparr>m := Some Map.empty\<rparr> else s)
      | L57 \<Rightarrow>
          (case (case m s of None \<Rightarrow> None | Some mp \<Rightarrow> mp (Do_key t)) of
             Some a \<Rightarrow> Some (t\<lparr>pc := L58, c57 := Some a\<rparr>, s)
           | None \<Rightarrow> Some (t\<lparr>pc := L63\<rparr>, s))
      | L58 \<Rightarrow> Unlock L59 t s
      | L59 \<Rightarrow>
          (case deref s (c57 t) of
             None \<Rightarrow> panics t s
           | Some a \<Rightarrow> if wg (calls s ! a) = 0 then Some (t\<lparr>pc := L60\<rparr>, s) else None)
      | L60 \<Rightarrow>
          (case deref s (c57 t) of
             None \<Rightarrow> panics t s
           | Some a \<Rightarrow>
               Some (t\<lparr>pc := Returned, ret := Some (val (calls s ! a), err (calls s ! a))\<rparr>, s))
      | L63 \<Rightarrow>
          Some (t\<lparr>pc := L64, c63 := Some (length (calls s))\<rparr>,
                s\<lparr>calls := calls s @ [\<lparr>wg = 0, val = None, err = None\<rparr>]\<rparr>)
      | L64 \<Rightarrow>
          (case deref s (c63 t) of
             None \<Rightarrow> panics t s
           | Some a \<Rightarrow>
               Some (t\<lparr>pc := L65\<rparr>,
                     s\<lparr>calls := (calls s)[a := (calls s ! a)\<lparr>wg := wg (calls s ! a) + 1\<rparr>]\<rparr>))
      | L65 \<Rightarrow>
          (case m s of
             None \<Rightarrow> panics t s
           | Some mp \<Rightarrow> Some (t\<lparr>pc := L66\<rparr>, s\<lparr>m := Some (mp(Do_key t := c63 t))\<rparr>))
      | L66 \<Rightarrow> Unlock L69 t s
      | L69 \<Rightarrow>
          (case deref s (c63 t) of
             None \<Rightarrow> panics t s
           | Some a \<Rightarrow>
               Some (t\<lparr>pc := L70\<rparr>,
                     s\<lparr>calls := (calls s)[a := (calls s ! a)\<lparr>val := fst (fn (nfn s)),
                                                             err := snd (fn (nfn s))\<rparr>],
                        nfn := nfn s + 1\<rparr>))
      | L70 \<Rightarrow>
          (case deref s (c63 t) of
             None \<Rightarrow> panics t s
           | Some a \<Rightarrow>
               if wg (calls s ! a) = 0 then panics t s
               else Some (t\<lparr>pc := L73\<rparr>,
                          s\<lparr>calls := (calls s)[a := (calls s ! a)\<lparr>wg := wg (calls s ! a) - 1\<rparr>]\<rparr>))
      | L73 \<Rightarrow> Lock L74 t s
      | L74 \<Rightarrow> Some (t\<lparr>pc := L75\<rparr>, s\<lparr>m := map_option (\<lambda>mp. mp(Do_key t := None)) (m s)\<rparr>)
      | L75 \<Rightarrow> Unlock L78 t s
      | L78 \<Rightarrow>
          (case deref s (c63 t) of
             None \<Rightarrow> panics t s
           | Some a \<Rightarrow>
               Some (t\<lparr>pc := Returned, ret := Some (val (calls s ! a), err (calls s ! a))\<rparr>, s))
      | Returned \<Rightarrow> None
      | Panicked \<Rightarrow> None)"

text \<open>One statement of goroutine \<open>i\<close> (no step when there is no such goroutine).\<close>

definition step ::
  "(nat \<Rightarrow> 'v option \<times> 'e option) \<Rightarrow> nat \<Rightarrow> ('v, 'e) world \<Rightarrow> ('v, 'e) world option" where
  "step fn i s =
     (if length (threads s) \<le> i then None
      else case stmt fn (threads s ! i) s of
             None \<Rightarrow> None
           | Some (t', s') \<Rightarrow> Some (s'\<lparr>threads := (threads s')[i := t']\<rparr>))"

text \<open>
  Running a scheduler: the goroutines move in the order of the list. Scheduling a
  goroutine that cannot move leaves the world as it is.
\<close>

fun run ::
  "(nat \<Rightarrow> 'v option \<times> 'e option) \<Rightarrow> nat list \<Rightarrow> ('v, 'e) world \<Rightarrow> ('v, 'e) world" where
  "run fn [] s = s"
| "run fn (i # sched) s = run fn sched (case step fn i s of None \<Rightarrow> s | Some s' \<Rightarrow> s')"

text \<open>What goroutine \<open>i\<close> has returned (\<open>None\<close> while it has not), and where it is.\<close>

definition returned :: "('v, 'e) world \<Rightarrow> nat \<Rightarrow> ('v option \<times> 'e option) option" where
  "returned s i =
     (if i < length (threads s) \<and> pc (threads s ! i) = Returned then ret (threads s ! i) else None)"

definition at :: "('v, 'e) world \<Rightarrow> nat \<Rightarrow> label" where
  "at s i = pc (threads s ! i)"

definition all_returned :: "('v, 'e) world \<Rightarrow> bool" where
  "all_returned s = list_all (\<lambda>t. pc t = Returned) (threads s)"

subsection \<open>The invariant of the interleaved executions\<close>

text \<open>A call is filled when its \<open>val\<close> and \<open>err\<close> are the pair of some execution of \<open>fn\<close>.\<close>

definition filled :: "(nat \<Rightarrow> 'v option \<times> 'e option) \<Rightarrow> ('v, 'e) world \<Rightarrow> nat \<Rightarrow> bool" where
  "filled fn s a = (\<exists>j < nfn s. fn j = (val (calls s ! a), err (calls s ! a)))"

text \<open>What a goroutine knows of the call behind a pointer, by where it stands.\<close>

definition waits :: "(nat \<Rightarrow> 'v option \<times> 'e option) \<Rightarrow> ('v, 'e) world \<Rightarrow> nat option \<Rightarrow> bool" where
  "waits fn s p =
     (\<exists>a. p = Some a \<and> a < length (calls s) \<and> (wg (calls s ! a) = 0 \<longrightarrow> filled fn s a))"

definition done_call :: "(nat \<Rightarrow> 'v option \<times> 'e option) \<Rightarrow> ('v, 'e) world \<Rightarrow> nat option \<Rightarrow> bool" where
  "done_call fn s p =
     (\<exists>a. p = Some a \<and> a < length (calls s) \<and> wg (calls s ! a) = 0 \<and> filled fn s a)"

definition owns :: "('v, 'e) world \<Rightarrow> nat option \<Rightarrow> nat \<Rightarrow> bool" where
  "owns s p n = (\<exists>a. p = Some a \<and> a < length (calls s) \<and> wg (calls s ! a) = n)"

definition unpublished :: "('v, 'e) world \<Rightarrow> nat option \<Rightarrow> bool" where
  "unpublished s p = (\<forall>mp k. m s = Some mp \<longrightarrow> mp k = p \<longrightarrow> p = None)"

definition absent :: "('v, 'e) world \<Rightarrow> string \<Rightarrow> bool" where
  "absent s k = (\<exists>mp. m s = Some mp \<and> mp k = None)"

definition registered :: "('v, 'e) world \<Rightarrow> string \<Rightarrow> nat option \<Rightarrow> bool" where
  "registered s k p = (p \<noteq> None \<and> (\<exists>mp. m s = Some mp \<and> (\<forall>k'. (mp k' = p) = (k' = k))))"

text \<open>The lines between a \<open>Lock\<close> and the matching \<open>Unlock\<close>.\<close>

definition in_cs :: "label \<Rightarrow> bool" where
  "in_cs l = (l \<in> {L53, L57, L58, L63, L64, L65, L66, L74, L75})"

definition frame_ok :: "(nat \<Rightarrow> 'v option \<times> 'e option) \<Rightarrow> ('v, 'e) world \<Rightarrow> ('v, 'e) frame \<Rightarrow> bool" where
  "frame_ok fn s t =
     ((in_cs (pc t) \<longrightarrow> mu s) \<and>
      (case pc t of
         L52 \<Rightarrow> c57 t = None \<and> c63 t = None
       | L53 \<Rightarrow> c57 t = None \<and> c63 t = None
       | L57 \<Rightarrow> c57 t = None \<and> c63 t = None \<and> m s \<noteq> None
       | L58 \<Rightarrow> c63 t = None \<and> waits fn s (c57 t)
       | L59 \<Rightarrow> c63 t = None \<and> waits fn s (c57 t)
       | L60 \<Rightarrow> c63 t = None \<and> done_call fn s (c57 t)
       | L63 \<Rightarrow> c57 t = None \<and> c63 t = None \<and> absent s (Do_key t)
       | L64 \<Rightarrow> c57 t = None \<and> absent s (Do_key t) \<and> owns s (c63 t) 0 \<and> unpublished s (c63 t)
       | L65 \<Rightarrow> c57 t = None \<and> absent s (Do_key t) \<and> owns s (c63 t) 1 \<and> unpublished s (c63 t)
       | L66 \<Rightarrow> c57 t = None \<and> owns s (c63 t) 1 \<and> registered s (Do_key t) (c63 t)
       | L69 \<Rightarrow> c57 t = None \<and> owns s (c63 t) 1 \<and> registered s (Do_key t) (c63 t)
       | L70 \<Rightarrow> c57 t = None \<and> owns s (c63 t) 1 \<and> registered s (Do_key t) (c63 t) \<and>
               (\<exists>a. c63 t = Some a \<and> filled fn s a)
       | L73 \<Rightarrow> c57 t = None \<and> done_call fn s (c63 t) \<and> registered s (Do_key t) (c63 t)
       | L74 \<Rightarrow> c57 t = None \<and> done_call fn s (c63 t) \<and> registered s (Do_key t) (c63 t)
       | L75 \<Rightarrow> c57 t = None \<and> done_call fn s (c63 t) \<and> unpublished s (c63 t)
       | L78 \<Rightarrow> c57 t = None \<and> done_call fn s (c63 t) \<and> unpublished s (c63 t)
       | Returned \<Rightarrow>
           (c57 t = None \<and> done_call fn s (c63 t) \<and> unpublished s (c63 t) \<and>
            ret t = Some (val (calls s ! the (c63 t)), err (calls s ! the (c63 t)))) \<or>
           (c63 t = None \<and> done_call fn s (c57 t) \<and>
            ret t = Some (val (calls s ! the (c57 t)), err (calls s ! the (c57 t))))
       | Panicked \<Rightarrow> False))"

definition pair_ok :: "('v, 'e) frame \<Rightarrow> ('v, 'e) frame \<Rightarrow> bool" where
  "pair_ok t u =
     (\<not> (in_cs (pc t) \<and> in_cs (pc u)) \<and>
      (c63 t \<noteq> None \<longrightarrow> c63 t \<noteq> c63 u) \<and>
      (pc t \<in> {L64, L65} \<longrightarrow> c57 u \<noteq> c63 t) \<and>
      (pc u \<in> {L64, L65} \<longrightarrow> c57 t \<noteq> c63 u))"

definition map_ok :: "(nat \<Rightarrow> 'v option \<times> 'e option) \<Rightarrow> ('v, 'e) world \<Rightarrow> bool" where
  "map_ok fn s = (\<forall>mp k. m s = Some mp \<longrightarrow> mp k = None \<or> waits fn s (mp k))"

text \<open>A goroutine between lines 64 and 69 has created a call and not yet run \<open>fn\<close> for it.\<close>

definition pending :: "('v, 'e) frame list \<Rightarrow> nat" where
  "pending ts = length (filter (\<lambda>t. pc t \<in> {L64, L65, L66, L69}) ts)"

definition Inv :: "(nat \<Rightarrow> 'v option \<times> 'e option) \<Rightarrow> ('v, 'e) world \<Rightarrow> bool" where
  "Inv fn s =
     ((\<forall>i < length (threads s). frame_ok fn s (threads s ! i)) \<and>
      (\<forall>i < length (threads s). \<forall>j < length (threads s).
         i \<noteq> j \<longrightarrow> pair_ok (threads s ! i) (threads s ! j)) \<and>
      map_ok fn s \<and>
      nfn s + pending (threads s) = length (calls s))"

section \<open>Properties of the recency cache\<close>

subsection \<open>The Go map\<close>

lemma go_eq_simps:
  "go_eq a NaN = False" "go_eq NaN b = False"
  "go_eq (Key x) b = (b = Key x)" "go_eq a (Key x) = (a = Key x)"
  by (auto simp: go_eq_def)

lemma go_eq_iff: "go_eq a b = (a = b \<and> b \<noteq> NaN)"
  by (auto simp: go_eq_def)

lemma map_index_Nil: "map_index [] k = None"
  by (simp add: map_index_def)

lemma map_index_Cons:
  "map_index (b # mp) k = (if go_eq (fst b) k then Some (snd b) else map_index mp k)"
  by (simp add: map_index_def)

lemma map_index_NaN: "map_index mp NaN = None"
  by (induction mp) (simp_all add: map_index_Nil map_index_Cons go_eq_simps)

lemma map_index_append:
  "map_index (mp @ mp') k = (case map_index mp k of Some a \<Rightarrow> Some a | None \<Rightarrow> map_index mp' k)"
  by (induction mp) (simp_all add: map_index_Nil map_index_Cons)

lemma map_index_None_iff: "(map_index mp k = None) = (k = NaN \<or> k \<notin> fst ` set mp)"
proof (induction mp)
  case Nil
  then show ?case by (simp add: map_index_Nil)
next
  case (Cons b mp)
  then show ?case by (auto simp: map_index_Cons go_eq_iff)
qed

lemma map_index_replace:
  "map_index (map (\<lambda>b. if go_eq (fst b) k then (fst b, a) else b) mp) k' =
     (if go_eq k k' \<and> map_index mp k \<noteq> None then Some a else map_index mp k')"
proof (induction mp)
  case Nil
  then show ?case by (simp add: map_index_Nil)
next
  case (Cons b mp)
  let ?r = "\<lambda>b. if go_eq (fst b) k then (fst b, a) else b"
  have c: "map_index (map ?r (b # mp)) k' =
           (if go_eq (fst b) k' then Some (snd (?r b)) else map_index (map ?r mp) k')"
    by (simp add: map_index_Cons)
  show ?case
  proof (cases "go_eq (fst b) k")
    case True
    then have k: "fst b = k" "k \<noteq> NaN" by (auto simp: go_eq_def)
    show ?thesis
    proof (cases "go_eq (fst b) k'")
      case True
      with k have "k' = k" by (simp add: go_eq_def)
      with k show ?thesis unfolding c by (simp add: map_index_Cons go_eq_def)
    next
      case False
      with k have "\<not> go_eq k k'" by simp
      with False show ?thesis unfolding c Cons.IH by (auto simp: map_index_Cons)
    qed
  next
    case False
    note nk = False
    show ?thesis
    proof (cases "go_eq (fst b) k'")
      case True
      then have k': "fst b = k'" "k' \<noteq> NaN" by (auto simp: go_eq_def)
      with nk have "\<not> go_eq k k'" by (auto simp: go_eq_def)
      with True nk show ?thesis unfolding c by (simp add: map_index_Cons)
    next
      case False
      with nk show ?thesis unfolding c Cons.IH by (auto simp: map_index_Cons)
    qed
  qed
qed

lemma map_index_assign:
  "map_index (map_assign mp k a) k' = (if go_eq k k' then Some a else map_index mp k')"
proof (cases "map_index mp k")
  case None
  then show ?thesis
    by (auto simp: map_assign_def map_index_append map_index_Cons map_index_Nil go_eq_iff
             split: option.splits)
next
  case (Some b)
  then show ?thesis by (simp add: map_assign_def map_index_replace)
qed

lemma map_index_delete:
  "map_index (map_delete mp k) k' = (if go_eq k k' then None else map_index mp k')"
proof (induction mp)
  case Nil
  then show ?case by (simp add: map_delete_def map_index_Nil)
next
  case (Cons b mp)
  then show ?case by (auto simp: map_delete_def map_index_Cons go_eq_iff)
qed

text \<open>The keys bound in the map that equal themselves.\<close>

lemma keys_replace:
  "map fst (map (\<lambda>b. if go_eq (fst b) k then (fst b, a) else b) mp) = map fst mp"
  by (induction mp) simp_all

lemma fst_assign:
  "map fst (map_assign mp k a) = (if map_index mp k = None then map fst mp @ [k] else map fst mp)"
  unfolding map_assign_def using keys_replace[of k a mp] by simp

lemma fst_delete: "set (map fst (map_delete mp k)) \<subseteq> set (map fst mp)"
  by (auto simp: map_delete_def)

lemma keys_assign:
  "filter (\<lambda>k. k \<noteq> NaN) (map fst (map_assign mp k a)) =
     (if map_index mp k = None \<and> k \<noteq> NaN
      then filter (\<lambda>k. k \<noteq> NaN) (map fst mp) @ [k]
      else filter (\<lambda>k. k \<noteq> NaN) (map fst mp))"
proof (cases "map_index mp k")
  case None
  then have "map_assign mp k a = mp @ [(k, a)]" by (simp add: map_assign_def)
  with None show ?thesis by simp
next
  case (Some b)
  then have "map fst (map_assign mp k a) = map fst mp"
    unfolding map_assign_def using keys_replace[of k a mp] by simp
  with Some show ?thesis by simp
qed

lemma keys_delete:
  "filter (\<lambda>k. k \<noteq> NaN) (map fst (map_delete mp k)) =
     (if k = NaN then filter (\<lambda>k. k \<noteq> NaN) (map fst mp)
      else filter (\<lambda>k'. k' \<noteq> k) (filter (\<lambda>k. k \<noteq> NaN) (map fst mp)))"
  by (induction mp) (auto simp: map_delete_def go_eq_iff)

lemma keys_dom: "set (filter (\<lambda>k. k \<noteq> NaN) (map fst mp)) = dom (map_index mp)"
  using map_index_None_iff[of mp] by (auto simp: dom_def)

lemma tidy_assign:
  assumes "distinct (filter (\<lambda>k. k \<noteq> NaN) (map fst mp))"
  shows "distinct (filter (\<lambda>k. k \<noteq> NaN) (map fst (map_assign mp k a)))"
proof (cases "map_index mp k = None \<and> k \<noteq> NaN")
  case True
  then have "k \<notin> set (filter (\<lambda>k. k \<noteq> NaN) (map fst mp))"
    unfolding keys_dom by (simp add: dom_def)
  with assms True show ?thesis unfolding keys_assign by simp
next
  case False
  with assms show ?thesis unfolding keys_assign by auto
qed

lemma tidy_delete:
  assumes "distinct (filter (\<lambda>k. k \<noteq> NaN) (map fst mp))"
  shows "distinct (filter (\<lambda>k. k \<noteq> NaN) (map fst (map_delete mp k)))"
proof (cases "k = NaN")
  case True
  with assms show ?thesis unfolding keys_delete by simp
next
  case False
  have "distinct (filter (\<lambda>k'. k' \<noteq> k) (filter (\<lambda>k. k \<noteq> NaN) (map fst mp)))"
    using assms by (rule distinct_filter)
  with False show ?thesis unfolding keys_delete by presburger
qed

subsection \<open>The linked structure\<close>

lemma linked_distinct: "linked h f l \<Longrightarrow> distinct l"
  by (simp add: linked_def)

lemma linked_NaN: "linked h f l \<Longrightarrow> f NaN = None"
  by (simp add: linked_def)

lemma linked_lt: "linked h f l \<Longrightarrow> a \<in> set l \<Longrightarrow> a < length h"
  by (simp add: linked_def)

lemma linked_fwd:
  "linked h f l \<Longrightarrow> a \<in> set l \<Longrightarrow> key (h ! a) \<noteq> NaN \<Longrightarrow> f (key (h ! a)) = Some a"
  by (simp add: linked_def)

lemma linked_mem: "linked h f l \<Longrightarrow> f k = Some a \<Longrightarrow> a \<in> set l"
  by (simp add: linked_def)

lemma linked_key: "linked h f l \<Longrightarrow> f k = Some a \<Longrightarrow> key (h ! a) = k"
  by (simp add: linked_def)

lemma linked_found: "linked h f l \<Longrightarrow> f k = Some a \<Longrightarrow> k \<noteq> NaN"
  by (auto simp: linked_def)

lemma linkedI:
  assumes "distinct l" and "f NaN = None"
    and "\<And>a. a \<in> set l \<Longrightarrow> a < length h"
    and "\<And>a. a \<in> set l \<Longrightarrow> key (h ! a) \<noteq> NaN \<Longrightarrow> f (key (h ! a)) = Some a"
    and "\<And>k a. f k = Some a \<Longrightarrow> a \<in> set l"
    and "\<And>k a. f k = Some a \<Longrightarrow> key (h ! a) = k"
  shows "linked h f l"
  unfolding linked_def
proof (intro conjI ballI allI impI)
  show "distinct l" by (rule assms(1))
  show "f NaN = None" by (rule assms(2))
next
  fix a assume a: "a \<in> set l"
  then show "a < length h" by (rule assms(3))
  assume "key (h ! a) \<noteq> NaN"
  with a show "f (key (h ! a)) = Some a" by (rule assms(4))
next
  fix k a assume "f k = Some a"
  then show "a \<in> set l" "key (h ! a) = k" by (rule assms(5), rule assms(6))
qed

text \<open>Two elements of the list with the same key, a key that equals itself, are one.\<close>

lemma linked_unique:
  assumes L: "linked h f l" and x: "x \<in> set l" and y: "y \<in> set l"
    and e: "key (h ! x) = key (h ! y)" and n: "key (h ! y) \<noteq> NaN"
  shows "x = y"
proof -
  from e n have n': "key (h ! x) \<noteq> NaN" by simp
  have "Some x = f (key (h ! x))" by (rule linked_fwd[OF L x n', symmetric])
  also have "\<dots> = f (key (h ! y))" by (rule arg_cong[OF e])
  also have "\<dots> = Some y" by (rule linked_fwd[OF L y n])
  finally show "x = y" by simp
qed

lemma linked_Nil: "linked h (map_index []) []"
  by (simp add: linked_def map_index_Nil)

lemma linked_remove:
  assumes L: "linked h f l" and e: "e \<in> set l"
    and f': "\<And>k. f' k = (if go_eq (key (h ! e)) k then None else f k)"
  shows "linked h f' (remove1 e l)"
proof (rule linkedI)
  note d = linked_distinct[OF L]
  show "distinct (remove1 e l)" using d by simp
  show "f' NaN = None" using linked_NaN[OF L] by (simp add: f')
  {
    fix a assume "a \<in> set (remove1 e l)"
    then have a: "a \<in> set l" "a \<noteq> e" using d by auto
    show "a < length h" by (rule linked_lt[OF L a(1)])
    assume n: "key (h ! a) \<noteq> NaN"
    have "key (h ! e) \<noteq> key (h ! a)"
      using linked_unique[OF L e a(1) _ n] a(2) by blast
    then show "f' (key (h ! a)) = Some a"
      using linked_fwd[OF L a(1) n] by (simp add: f' go_eq_def)
  }
  {
    fix k a assume m: "f' k = Some a"
    then have k: "\<not> go_eq (key (h ! e)) k" and mk: "f k = Some a"
      by (auto simp: f' split: if_splits)
    have kn: "k \<noteq> NaN" by (rule linked_found[OF L mk])
    have "a \<noteq> e" using linked_key[OF L mk] k kn by (auto simp: go_eq_def)
    then show "a \<in> set (remove1 e l)" using linked_mem[OF L mk] d by simp
    show "key (h ! a) = k" by (rule linked_key[OF L mk])
  }
qed

lemma linked_move:
  assumes L: "linked h f l"
  shows "linked h f (MoveToFront e l)"
proof (cases "e \<in> set l")
  case False then show ?thesis using L by (simp add: MoveToFront_def)
next
  case True
  have s: "set (e # remove1 e l) = set l" using True linked_distinct[OF L] by auto
  have d: "distinct (e # remove1 e l)" using linked_distinct[OF L] by simp
  have "linked h f (e # remove1 e l)"
    using L d unfolding linked_def s by simp
  then show ?thesis using True by (simp add: MoveToFront_def)
qed

lemma key_update_val: "key (h[e := (h ! e)\<lparr>value' := v\<rparr>] ! a) = key (h ! a)"
  by (cases "a = e"; cases "e < length h") (simp_all add: list_update_beyond)

lemma linked_update_val:
  assumes L: "linked h f l"
  shows "linked (h[e := (h ! e)\<lparr>value' := v\<rparr>]) f l"
  using L unfolding linked_def key_update_val by simp

lemma linked_push:
  assumes L: "linked h f l" and k: "f k = None"
    and f': "\<And>k'. f' k' = (if go_eq k k' then Some (length h) else f k')"
  shows "linked (h @ [\<lparr>key = k, value' = v\<rparr>]) f' (length h # l)"
proof (rule linkedI)
  have nl: "length h \<notin> set l" using linked_lt[OF L] by blast
  show "distinct (length h # l)" using linked_distinct[OF L] nl by simp
  show "f' NaN = None" using linked_NaN[OF L] by (simp add: f' go_eq_simps)
  {
    fix a assume a: "a \<in> set (length h # l)"
    show "a < length (h @ [\<lparr>key = k, value' = v\<rparr>])"
    proof (cases "a = length h")
      case True then show ?thesis by simp
    next
      case False
      with a have "a \<in> set l" by simp
      from linked_lt[OF L this] show ?thesis by simp
    qed
    assume n: "key ((h @ [\<lparr>key = k, value' = v\<rparr>]) ! a) \<noteq> NaN"
    show "f' (key ((h @ [\<lparr>key = k, value' = v\<rparr>]) ! a)) = Some a"
    proof (cases "a = length h")
      case True
      with n show ?thesis by (simp add: f' go_eq_def)
    next
      case False
      with a have al: "a \<in> set l" by simp
      have lt: "a < length h" by (rule linked_lt[OF L al])
      with n have n': "key (h ! a) \<noteq> NaN" by (simp add: nth_append)
      have "key (h ! a) \<noteq> k" using linked_fwd[OF L al n'] k by auto
      then show ?thesis using lt linked_fwd[OF L al n'] by (simp add: nth_append f' go_eq_def)
    qed
  }
  {
    fix k' a assume m: "f' k' = Some a"
    show "a \<in> set (length h # l)"
    proof (cases "go_eq k k'")
      case True with m show ?thesis by (simp add: f')
    next
      case False
      with m have "f k' = Some a" by (simp add: f')
      from linked_mem[OF L this] show ?thesis by simp
    qed
    show "key ((h @ [\<lparr>key = k, value' = v\<rparr>]) ! a) = k'"
    proof (cases "go_eq k k'")
      case True
      with m have "a = length h" by (simp add: f')
      with True show ?thesis by (simp add: go_eq_def)
    next
      case False
      with m have mk: "f k' = Some a" by (simp add: f')
      from linked_lt[OF L linked_mem[OF L mk]] linked_key[OF L mk]
      show ?thesis by (simp add: nth_append)
    qed
  }
qed

text \<open>
  Counting the keys that equal themselves, the map has as many bindings as the list has
  elements.
\<close>

lemma linked_sizes:
  assumes L: "linked h (map_index mp) l"
    and d: "distinct (filter (\<lambda>k. k \<noteq> NaN) (map fst mp))"
  shows "length (filter (\<lambda>k. k \<noteq> NaN) (map fst mp)) =
         length (filter (\<lambda>k. k \<noteq> NaN) (map (\<lambda>a. key (h ! a)) l))"
proof -
  let ?g = "\<lambda>a. key (h ! a)"
  let ?l' = "filter (\<lambda>a. ?g a \<noteq> NaN) l"
  have fm: "filter (\<lambda>k. k \<noteq> NaN) (map ?g l) = map ?g ?l'"
    by (simp add: filter_map comp_def)
  have inj: "inj_on ?g (set ?l')"
  proof (rule inj_onI)
    fix x y assume "x \<in> set ?l'" "y \<in> set ?l'" "?g x = ?g y"
    then show "x = y" using linked_unique[OF L, of x y] by simp
  qed
  have d2: "distinct (map ?g ?l')"
    using linked_distinct[OF L] inj by (simp add: distinct_map)
  have s: "set (map ?g ?l') = dom (map_index mp)"
  proof (intro set_eqI iffI)
    fix k assume "k \<in> set (map ?g ?l')"
    then obtain a where a: "a \<in> set l" "?g a \<noteq> NaN" "k = ?g a" by auto
    from linked_fwd[OF L a(1,2)] a(3) show "k \<in> dom (map_index mp)" by auto
  next
    fix k assume "k \<in> dom (map_index mp)"
    then obtain a where a: "map_index mp k = Some a" by auto
    from linked_mem[OF L a] linked_key[OF L a] linked_found[OF L a]
    show "k \<in> set (map ?g ?l')" by auto
  qed
  have "length (filter (\<lambda>k. k \<noteq> NaN) (map fst mp)) =
        card (set (filter (\<lambda>k. k \<noteq> NaN) (map fst mp)))"
    by (rule distinct_card[OF d, symmetric])
  also have "\<dots> = card (set (map ?g ?l'))" unfolding keys_dom s ..
  also have "\<dots> = length (map ?g ?l')" by (rule distinct_card[OF d2])
  finally show ?thesis unfolding fm .
qed

lemma consistent_linked:
  assumes "cache c = Some mp" "ll c = Some l"
  shows "consistent c =
         (linked (elems c) (map_index mp) l \<and> distinct (filter (\<lambda>k. k \<noteq> NaN) (map fst mp)))"
  using assms linked_sizes[of "elems c" mp l]
  by (auto simp: consistent_def keys_of_def)

subsection \<open>Lists ordered by recency\<close>

lemma sorted_wrt_remove1: "sorted_wrt P xs \<Longrightarrow> sorted_wrt P (remove1 a xs)"
proof (induction xs)
  case Nil
  then show ?case by simp
next
  case (Cons x xs)
  have "set (remove1 a xs) \<subseteq> set xs" by (rule set_remove1_subset)
  with Cons show ?case by auto
qed

lemma sorted_wrt_butlast: "sorted_wrt P xs \<Longrightarrow> sorted_wrt P (butlast xs)"
proof (cases "xs = []")
  case True
  then show ?thesis by simp
next
  case False
  assume s: "sorted_wrt P xs"
  from False have "xs = butlast xs @ [last xs]" by simp
  with s have "sorted_wrt P (butlast xs @ [last xs])" by simp
  then show ?thesis unfolding sorted_wrt_append by simp
qed

lemma remove1_last: "distinct xs \<Longrightarrow> xs \<noteq> [] \<Longrightarrow> remove1 (last xs) xs = butlast xs"
proof (induction xs)
  case Nil
  then show ?case by simp
next
  case (Cons x xs)
  show ?case
  proof (cases "xs = []")
    case True
    then show ?thesis by simp
  next
    case False
    with Cons.prems have "last xs \<noteq> x" by auto
    with Cons False show ?thesis by simp
  qed
qed

lemma map_remove1_unique:
  "\<forall>x \<in> set xs. f x = f e \<longrightarrow> x = e \<Longrightarrow> e \<in> set xs \<Longrightarrow>
   map f (remove1 e xs) = remove1 (f e) (map f xs)"
proof (induction xs)
  case Nil
  then show ?case by simp
next
  case (Cons x xs)
  show ?case
  proof (cases "x = e")
    case True
    then show ?thesis by simp
  next
    case False
    with Cons.prems have e: "e \<in> set xs" by simp
    from Cons.prems False have ne: "f x \<noteq> f e" by auto
    from Cons.prems have "\<forall>x \<in> set xs. f x = f e \<longrightarrow> x = e" by simp
    from Cons.IH[OF this e] False ne show ?thesis by simp
  qed
qed

lemma age_aged:
  "\<forall>k \<in> set ks. \<not> accesses x k \<Longrightarrow>
   map (\<lambda>k. age k (rev (ops @ [x]))) ks = map Suc (map (\<lambda>k. age k (rev ops)) ks)"
  by (induction ks) simp_all

lemma sorted_wrt_map_Suc: "sorted_wrt (<) (map Suc ns) = sorted_wrt (<) ns"
  by (simp add: sorted_wrt_map)

lemma by_recency_keep:
  assumes "by_recency ops ks" and "\<forall>k \<in> set ks. \<not> accesses x k"
  shows "by_recency (ops @ [x]) ks"
  using assms(1) unfolding by_recency_def age_aged[OF assms(2)] sorted_wrt_map_Suc .

lemma by_recency_remove1: "by_recency ops ks \<Longrightarrow> by_recency ops (remove1 k ks)"
proof -
  assume s: "by_recency ops ks"
  have "sorted_wrt (\<lambda>a b. age a (rev ops) < age b (rev ops)) (remove1 k ks)"
    using s unfolding by_recency_def sorted_wrt_map by (rule sorted_wrt_remove1)
  then show ?thesis unfolding by_recency_def sorted_wrt_map .
qed

lemma by_recency_butlast: "by_recency ops ks \<Longrightarrow> by_recency ops (butlast ks)"
proof -
  assume s: "by_recency ops ks"
  have "sorted_wrt (\<lambda>a b. age a (rev ops) < age b (rev ops)) (butlast ks)"
    using s unfolding by_recency_def sorted_wrt_map by (rule sorted_wrt_butlast)
  then show ?thesis unfolding by_recency_def sorted_wrt_map .
qed

lemma by_recency_touch:
  assumes s: "by_recency ops ks" and d: "distinct ks" and x: "\<And>k'. accesses x k' = (k' = k)"
  shows "by_recency (ops @ [x]) (k # remove1 k ks)"
proof -
  have nk: "\<forall>k' \<in> set (remove1 k ks). \<not> accesses x k'" using d x by simp
  have r: "by_recency (ops @ [x]) (remove1 k ks)"
    by (rule by_recency_keep[OF by_recency_remove1[OF s] nk])
  have z: "age k (rev (ops @ [x])) = 0" using x by simp
  have p: "\<forall>k' \<in> set (remove1 k ks). 0 < age k' (rev (ops @ [x]))" using nk by simp
  show ?thesis using r p unfolding by_recency_def by (simp add: z del: rev_append age.simps)
qed

subsection \<open>What each method does to the linked structure\<close>

lemma keys_of_Some: "ll c = Some l \<Longrightarrow> keys_of c = map (\<lambda>a. key (elems c ! a)) l"
  by (simp add: keys_of_def)

lemma linked_present:
  assumes L: "linked h f l" and k: "f k = Some a"
  shows "k \<in> set (map (\<lambda>a. key (h ! a)) l)"
  using linked_mem[OF L k] linked_key[OF L k] by force

lemma linked_absent:
  assumes L: "linked h f l" and k: "f k = None" and n: "k \<noteq> NaN"
  shows "k \<notin> set (map (\<lambda>a. key (h ! a)) l)"
proof
  assume "k \<in> set (map (\<lambda>a. key (h ! a)) l)"
  then obtain a where a: "a \<in> set l" "k = key (h ! a)" by auto
  from a n have "key (h ! a) \<noteq> NaN" by simp
  from linked_fwd[OF L a(1) this] a(2) k show False by simp
qed

lemma keys_remove1:
  assumes L: "linked h f l" and e: "e \<in> set l" and n: "key (h ! e) \<noteq> NaN"
  shows "map (\<lambda>a. key (h ! a)) (remove1 e l) = remove1 (key (h ! e)) (map (\<lambda>a. key (h ! a)) l)"
proof (rule map_remove1_unique[OF _ e])
  show "\<forall>x \<in> set l. key (h ! x) = key (h ! e) \<longrightarrow> x = e"
    using linked_unique[OF L _ e _ n] by blast
qed

lemma keys_once:
  assumes L: "linked h f l" and k: "f k = Some a"
  shows "k \<notin> set (remove1 k (map (\<lambda>a. key (h ! a)) l))"
proof -
  let ?g = "\<lambda>a. key (h ! a)"
  have a: "a \<in> set l" "?g a = k" "k \<noteq> NaN"
    using linked_mem[OF L k] linked_key[OF L k] linked_found[OF L k] by simp_all
  have n: "?g a \<noteq> NaN" using a by simp
  have "remove1 k (map ?g l) = map ?g (remove1 a l)"
    using keys_remove1[OF L a(1) n] a(2) by simp
  moreover have "k \<notin> set (map ?g (remove1 a l))"
  proof
    assume "k \<in> set (map ?g (remove1 a l))"
    then obtain b where b: "b \<in> set (remove1 a l)" "?g b = k" by auto
    then have bl: "b \<in> set l" "b \<noteq> a" using linked_distinct[OF L] by auto
    from linked_unique[OF L bl(1) a(1) _ n] b(2) a(2) bl(2) show False by simp
  qed
  ultimately show ?thesis by simp
qed

lemma removeElement_linked:
  assumes c: "cache c = Some mp" "ll c = Some l" and L: "linked (elems c) (map_index mp) l"
    and T: "distinct (filter (\<lambda>k. k \<noteq> NaN) (map fst mp))"
    and e: "e \<in> set l"
  shows "\<exists>c' mp'. removeElement e c = Inr c' \<and>
           mp' = map_delete mp (key (elems c ! e)) \<and>
           cache c' = Some mp' \<and> ll c' = Some (remove1 e l) \<and>
           linked (elems c') (map_index mp') (remove1 e l) \<and>
           distinct (filter (\<lambda>k. k \<noteq> NaN) (map fst mp')) \<and>
           keys_of c' = map (\<lambda>a. key (elems c ! a)) (remove1 e l) \<and>
           elems c' = elems c \<and> MaxEntries c' = MaxEntries c \<and> OnEvicted c' = OnEvicted c \<and>
           evicted c' = (if OnEvicted c
                         then evicted c @ [(key (elems c ! e), value' (elems c ! e))]
                         else evicted c)"
proof -
  let ?mp = "map_delete mp (key (elems c ! e))"
  have lt: "e < length (elems c)" by (rule linked_lt[OF L e])
  have L': "linked (elems c) (map_index ?mp) (remove1 e l)"
    by (rule linked_remove[OF L e]) (rule map_index_delete)
  show ?thesis
    using c lt L' tidy_delete[OF T, of "key (elems c ! e)"]
    by (simp add: removeElement_def Let_def keys_of_def)
qed

lemma RemoveOldest_linked:
  assumes c: "cache c = Some mp" "ll c = Some l" and L: "linked (elems c) (map_index mp) l"
    and T: "distinct (filter (\<lambda>k. k \<noteq> NaN) (map fst mp))"
  shows "\<exists>c' mp'. RemoveOldest c = Inr c' \<and>
           cache c' = Some mp' \<and> ll c' = Some (butlast l) \<and>
           linked (elems c') (map_index mp') (butlast l) \<and>
           distinct (filter (\<lambda>k. k \<noteq> NaN) (map fst mp')) \<and>
           set (map fst mp') \<subseteq> set (map fst mp) \<and>
           keys_of c' = butlast (keys_of c) \<and>
           elems c' = elems c \<and> MaxEntries c' = MaxEntries c \<and> OnEvicted c' = OnEvicted c \<and>
           evicted c' = (if OnEvicted c \<and> l \<noteq> []
                         then evicted c @ [(key (elems c ! last l), value' (elems c ! last l))]
                         else evicted c)"
proof (cases "l = []")
  case True
  with c L T show ?thesis by (simp add: RemoveOldest_def Back_def keys_of_def)
next
  case False
  then have e: "last l \<in> set l" by simp
  have r: "remove1 (last l) l = butlast l"
    by (rule remove1_last[OF linked_distinct[OF L] False])
  from removeElement_linked[OF c L T e] obtain c' mp' where c':
    "removeElement (last l) c = Inr c'"
    "cache c' = Some mp'" "ll c' = Some (remove1 (last l) l)"
    "linked (elems c') (map_index mp') (remove1 (last l) l)"
    "distinct (filter (\<lambda>k. k \<noteq> NaN) (map fst mp'))"
    "keys_of c' = map (\<lambda>a. key (elems c ! a)) (remove1 (last l) l)"
    "elems c' = elems c" "MaxEntries c' = MaxEntries c" "OnEvicted c' = OnEvicted c"
    "evicted c' = (if OnEvicted c
                   then evicted c @ [(key (elems c ! last l), value' (elems c ! last l))]
                   else evicted c)"
    "mp' = map_delete mp (key (elems c ! last l))"
    by blast
  have sb: "set (map fst mp') \<subseteq> set (map fst mp)" unfolding c'(11) by (rule fst_delete)
  have k: "keys_of c' = butlast (keys_of c)"
    using c'(6) c(2) by (simp add: keys_of_def r map_butlast)
  have "RemoveOldest c = Inr c'"
    using c c'(1) False by (simp add: RemoveOldest_def Back_def)
  with c' k sb False show ?thesis by (simp add: r)
qed

lemma Remove_linked:
  assumes c: "cache c = Some mp" "ll c = Some l" and L: "linked (elems c) (map_index mp) l"
    and T: "distinct (filter (\<lambda>k. k \<noteq> NaN) (map fst mp))"
  shows "\<exists>c' mp' l'. Remove k c = Inr c' \<and>
           cache c' = Some mp' \<and> ll c' = Some l' \<and> linked (elems c') (map_index mp') l' \<and>
           distinct (filter (\<lambda>k. k \<noteq> NaN) (map fst mp')) \<and>
           keys_of c' = (if map_index mp k = None then keys_of c else remove1 k (keys_of c)) \<and>
           (\<forall>k'. map_index mp' k' = (if go_eq k k' then None else map_index mp k')) \<and>
           set (map fst mp') \<subseteq> set (map fst mp) \<and>
           elems c' = elems c \<and> MaxEntries c' = MaxEntries c \<and> OnEvicted c' = OnEvicted c \<and>
           evicted c' = (case map_index mp k of
                           Some a \<Rightarrow> if OnEvicted c
                                     then evicted c @ [(k, value' (elems c ! a))]
                                     else evicted c
                         | None \<Rightarrow> evicted c)"
proof (cases "map_index mp k")
  case None
  have "\<forall>k'. map_index mp k' = (if go_eq k k' then None else map_index mp k')"
    using None by (auto simp: go_eq_def)
  with c L T None show ?thesis by (simp add: Remove_def)
next
  case (Some a)
  have e: "a \<in> set l" by (rule linked_mem[OF L Some])
  have ka: "key (elems c ! a) = k" by (rule linked_key[OF L Some])
  have n: "key (elems c ! a) \<noteq> NaN" using linked_found[OF L Some] ka by simp
  have kr: "map (\<lambda>a. key (elems c ! a)) (remove1 a l) = remove1 k (keys_of c)"
    using keys_remove1[OF L e n] ka c(2) by (simp add: keys_of_def)
  from removeElement_linked[OF c L T e] c Some kr fst_delete[of mp k] show ?thesis
    by (auto simp: Remove_def ka map_index_delete)
qed

lemma Get_linked:
  assumes c: "cache c = Some mp" "ll c = Some l" and L: "linked (elems c) (map_index mp) l"
  shows "\<exists>c' l' r. Get k c = Inr (r, c') \<and>
           cache c' = Some mp \<and> ll c' = Some l' \<and> linked (elems c') (map_index mp) l' \<and>
           keys_of c' =
             (if map_index mp k = None then keys_of c else k # remove1 k (keys_of c)) \<and>
           r = (case map_index mp k of Some a \<Rightarrow> (value' (elems c ! a), True)
                | None \<Rightarrow> (None, False)) \<and>
           elems c' = elems c \<and> MaxEntries c' = MaxEntries c \<and> OnEvicted c' = OnEvicted c \<and>
           evicted c' = evicted c"
proof (cases "map_index mp k")
  case None
  with c L show ?thesis by (simp add: Get_def keys_of_def)
next
  case (Some a)
  have e: "a \<in> set l" by (rule linked_mem[OF L Some])
  have ka: "key (elems c ! a) = k" by (rule linked_key[OF L Some])
  have n: "key (elems c ! a) \<noteq> NaN" using linked_found[OF L Some] ka by simp
  have lt: "a < length (elems c)" by (rule linked_lt[OF L e])
  have kr: "map (\<lambda>a. key (elems c ! a)) (remove1 a l) =
            remove1 k (map (\<lambda>a. key (elems c ! a)) l)"
    using keys_remove1[OF L e n] ka by simp
  have mv: "MoveToFront a l = a # remove1 a l" using e by (simp add: MoveToFront_def)
  from linked_move[OF L, of a] c Some lt kr ka show ?thesis
    by (simp add: Get_def keys_of_def mv)
qed

lemma keys_update_val:
  "map (\<lambda>a. key (h[e := (h ! e)\<lparr>value' := v\<rparr>] ! a)) l = map (\<lambda>a. key (h ! a)) l"
  by (simp add: key_update_val)

lemma keys_push:
  assumes "\<And>a. a \<in> set l \<Longrightarrow> a < length h"
  shows "map (\<lambda>a. key ((h @ [x]) ! a)) l = map (\<lambda>a. key (h ! a)) l"
  using assms by (simp add: nth_append)

lemma Add_linked:
  assumes c: "cache c = Some mp" "ll c = Some l" and L: "linked (elems c) (map_index mp) l"
    and T: "distinct (filter (\<lambda>k. k \<noteq> NaN) (map fst mp))"
  shows "\<exists>c' mp' l'. Add k v c = Inr c' \<and>
           cache c' = Some mp' \<and> ll c' = Some l' \<and> linked (elems c') (map_index mp') l' \<and>
           distinct (filter (\<lambda>k. k \<noteq> NaN) (map fst mp')) \<and>
           keys_of c' =
             (if map_index mp k \<noteq> None then k # remove1 k (keys_of c)
              else if MaxEntries c \<noteq> 0 \<and> MaxEntries c < int (Suc (length l))
                   then butlast (k # keys_of c) else k # keys_of c) \<and>
           set (map fst mp') \<subseteq> insert k (set (map fst mp)) \<and>
           MaxEntries c' = MaxEntries c \<and> OnEvicted c' = OnEvicted c \<and>
           (MaxEntries c = 0 \<or> map_index mp k \<noteq> None \<longrightarrow> evicted c' = evicted c)"
proof (cases "map_index mp k")
  case (Some a)
  have e: "a \<in> set l" by (rule linked_mem[OF L Some])
  have ka: "key (elems c ! a) = k" by (rule linked_key[OF L Some])
  have n: "key (elems c ! a) \<noteq> NaN" using linked_found[OF L Some] ka by simp
  have lt: "a < length (elems c)" by (rule linked_lt[OF L e])
  have kr: "map (\<lambda>a. key (elems c ! a)) (remove1 a l) =
            remove1 k (map (\<lambda>a. key (elems c ! a)) l)"
    using keys_remove1[OF L e n] ka by simp
  have mv: "MoveToFront a l = a # remove1 a l" using e by (simp add: MoveToFront_def)
  have L': "linked ((elems c)[a := (elems c ! a)\<lparr>value' := v\<rparr>]) (map_index mp) (MoveToFront a l)"
    by (rule linked_move[OF linked_update_val[OF L]])
  have sb: "set (map fst mp) \<subseteq> insert k (set (map fst mp))" by (rule subset_insertI)
  from L' T c Some lt kr sb show ?thesis
    by (simp add: Add_def keys_of_def keys_update_val key_update_val mv ka)
next
  case None
  let ?h = "elems c @ [\<lparr>key = k, value' = v\<rparr>]"
  let ?n = "length (elems c)"
  let ?mp = "map_assign mp k ?n"
  let ?c1 = "c\<lparr>elems := ?h, ll := Some (?n # l), cache := Some ?mp\<rparr>"
  have L1: "linked ?h (map_index ?mp) (?n # l)"
    by (rule linked_push[OF L None]) (rule map_index_assign)
  have T1: "distinct (filter (\<lambda>k. k \<noteq> NaN) (map fst ?mp))" by (rule tidy_assign[OF T])
  have k1: "keys_of ?c1 = k # keys_of c"
    using c(2) keys_push[of l "elems c", OF linked_lt[OF L]] by (simp add: keys_of_def)
  have s1: "set (map fst ?mp) \<subseteq> insert k (set (map fst mp))"
    unfolding fst_assign by auto
  show ?thesis
  proof (cases "MaxEntries c \<noteq> 0 \<and> MaxEntries c < int (Suc (length l))")
    case False
    then have "Add k v c = Inr ?c1" using c None by (auto simp: Add_def Let_def)
    with L1 T1 k1 s1 None False show ?thesis by auto
  next
    case True
    then have a: "Add k v c = RemoveOldest ?c1" using c None by (auto simp: Add_def Let_def)
    have c1: "cache ?c1 = Some ?mp" "ll ?c1 = Some (?n # l)" by simp_all
    have L1': "linked (elems ?c1) (map_index ?mp) (?n # l)" using L1 by simp
    from RemoveOldest_linked[OF c1 L1' T1] obtain c' mp' where c':
      "RemoveOldest ?c1 = Inr c'" "cache c' = Some mp'" "ll c' = Some (butlast (?n # l))"
      "linked (elems c') (map_index mp') (butlast (?n # l))"
      "distinct (filter (\<lambda>k. k \<noteq> NaN) (map fst mp'))"
      "keys_of c' = butlast (keys_of ?c1)"
      "MaxEntries c' = MaxEntries ?c1" "OnEvicted c' = OnEvicted ?c1"
      "set (map fst mp') \<subseteq> set (map fst ?mp)"
      by blast
    from c'(9) s1 have "set (map fst mp') \<subseteq> insert k (set (map fst mp))" by blast
    with c' a k1 None True show ?thesis by auto
  qed
qed

subsection \<open>Sequences of calls keep the structure linked\<close>

lemma run_ops_append:
  "run_ops (xs @ ys) c = (case run_ops xs c of Inl p \<Rightarrow> Inl p | Inr c' \<Rightarrow> run_ops ys c')"
  by (induction xs arbitrary: c) (simp_all split: sum.splits)

lemma apply_op_linked:
  assumes c: "cache c = Some mp" "ll c = Some l" and L: "linked (elems c) (map_index mp) l"
    and T: "distinct (filter (\<lambda>k. k \<noteq> NaN) (map fst mp))"
  shows "\<exists>c' mp' l'. apply_op x c = Inr c' \<and>
           cache c' = Some mp' \<and> ll c' = Some l' \<and> linked (elems c') (map_index mp') l' \<and>
           distinct (filter (\<lambda>k. k \<noteq> NaN) (map fst mp')) \<and>
           MaxEntries c' = MaxEntries c \<and> OnEvicted c' = OnEvicted c"
proof (cases x)
  case (OpAdd k v)
  from Add_linked[OF c L T, of k v] OpAdd show ?thesis by auto
next
  case (OpGet k)
  from Get_linked[OF c L, of k] T OpGet show ?thesis by auto
next
  case (OpRemove k)
  from Remove_linked[OF c L T, of k] OpRemove show ?thesis by auto
next
  case OpRemoveOldest
  from RemoveOldest_linked[OF c L T] OpRemoveOldest show ?thesis by auto
next
  case OpLen
  with c L T show ?thesis by (simp add: Len_def)
qed

lemma run_ops_linked:
  assumes "cache c = Some mp" "ll c = Some l" "linked (elems c) (map_index mp) l"
    "distinct (filter (\<lambda>k. k \<noteq> NaN) (map fst mp))"
  shows "\<exists>c' mp' l'. run_ops ops c = Inr c' \<and>
           cache c' = Some mp' \<and> ll c' = Some l' \<and> linked (elems c') (map_index mp') l' \<and>
           distinct (filter (\<lambda>k. k \<noteq> NaN) (map fst mp')) \<and>
           MaxEntries c' = MaxEntries c \<and> OnEvicted c' = OnEvicted c"
  using assms
proof (induction ops arbitrary: c mp l)
  case Nil
  then show ?case by simp
next
  case (Cons x xs)
  from apply_op_linked[OF Cons.prems, of x] obtain c1 mp1 l1 where c1:
    "apply_op x c = Inr c1" "cache c1 = Some mp1" "ll c1 = Some l1"
    "linked (elems c1) (map_index mp1) l1"
    "distinct (filter (\<lambda>k. k \<noteq> NaN) (map fst mp1))"
    "MaxEntries c1 = MaxEntries c" "OnEvicted c1 = OnEvicted c"
    by blast
  from Cons.IH[OF c1(2,3,4,5)] c1(1,6,7) show ?case by simp
qed

text \<open>Every cache built by \<open>New\<close> stays consistent, whatever the keys.\<close>

lemma run_ops_New_consistent:
  "\<exists>c. run_ops ops ((New n)\<lparr>OnEvicted := f\<rparr>) = Inr c \<and> cache c \<noteq> None \<and> consistent c"
proof -
  let ?c0 = "(New n :: ('a, 'b) Cache)\<lparr>OnEvicted := f\<rparr>"
  have c0: "cache ?c0 = Some []" "ll ?c0 = Some []" "linked (elems ?c0) (map_index []) []"
    "distinct (filter (\<lambda>k. k \<noteq> NaN) (map fst ([] :: ('a Key \<times> nat) list)))"
    by (simp_all add: New_def linked_Nil)
  from run_ops_linked[OF c0, of ops] obtain c mp l where c:
    "run_ops ops ?c0 = Inr c" "cache c = Some mp" "ll c = Some l"
    "linked (elems c) (map_index mp) l" "distinct (filter (\<lambda>k. k \<noteq> NaN) (map fst mp))"
    by blast
  from c consistent_linked[OF c(2,3)] show ?thesis by auto
qed

subsection \<open>Without keys that do not equal themselves: sizes and recency\<close>

lemma filter_no_NaN: "NaN \<notin> set ks \<Longrightarrow> filter (\<lambda>k. k \<noteq> NaN) ks = ks"
  by (induction ks) auto

lemma linked_distinct_keys:
  assumes L: "linked h f l" and n: "NaN \<notin> set (map (\<lambda>a. key (h ! a)) l)"
  shows "distinct (map (\<lambda>a. key (h ! a)) l)"
proof -
  have "inj_on (\<lambda>a. key (h ! a)) (set l)"
  proof (rule inj_onI)
    fix x y assume x: "x \<in> set l" and y: "y \<in> set l" and e: "key (h ! x) = key (h ! y)"
    have m: "key (h ! y) \<in> set (map (\<lambda>a. key (h ! a)) l)" using y by simp
    have "key (h ! y) \<noteq> NaN"
    proof
      assume "key (h ! y) = NaN"
      with m n show False by simp
    qed
    from linked_unique[OF L x y e this] show "x = y" .
  qed
  with linked_distinct[OF L] show ?thesis by (simp add: distinct_map)
qed

lemma apply_op_recency:
  assumes c: "cache c = Some mp" "ll c = Some l" and L: "linked (elems c) (map_index mp) l"
    and T: "distinct (filter (\<lambda>k. k \<noteq> NaN) (map fst mp))"
    and N: "NaN \<notin> set (map fst mp)" "NaN \<notin> set (keys_of c)"
    and s: "by_recency ops (keys_of c)" and x: "\<not> adds_NaN x"
  shows "\<exists>c' mp' l'. apply_op x c = Inr c' \<and>
           cache c' = Some mp' \<and> ll c' = Some l' \<and> linked (elems c') (map_index mp') l' \<and>
           distinct (filter (\<lambda>k. k \<noteq> NaN) (map fst mp')) \<and>
           NaN \<notin> set (map fst mp') \<and> NaN \<notin> set (keys_of c') \<and>
           by_recency (ops @ [x]) (keys_of c') \<and>
           MaxEntries c' = MaxEntries c \<and> OnEvicted c' = OnEvicted c"
proof -
  have d: "distinct (keys_of c)"
    using linked_distinct_keys[OF L] N(2) c(2) by (simp add: keys_of_def)
  have ab: "\<And>k. map_index mp k = None \<Longrightarrow> k \<notin> set (keys_of c)"
  proof -
    fix k assume k: "map_index mp k = None"
    show "k \<notin> set (keys_of c)"
    proof (cases "k = NaN")
      case True with N(2) show ?thesis by simp
    next
      case False
      from linked_absent[OF L k False] c(2) show ?thesis by (simp add: keys_of_def)
    qed
  qed
  show ?thesis
  proof (cases x)
    case (OpAdd k v)
    with x have kn: "k \<noteq> NaN" by simp
    have t: "by_recency (ops @ [x]) (k # remove1 k (keys_of c))"
      by (rule by_recency_touch[OF s d]) (auto simp: OpAdd)
    from Add_linked[OF c L T, of k v] obtain c' mp' l' where c':
      "Add k v c = Inr c'" "cache c' = Some mp'" "ll c' = Some l'"
      "linked (elems c') (map_index mp') l'"
      "distinct (filter (\<lambda>k. k \<noteq> NaN) (map fst mp'))"
      "keys_of c' =
         (if map_index mp k \<noteq> None then k # remove1 k (keys_of c)
          else if MaxEntries c \<noteq> 0 \<and> MaxEntries c < int (Suc (length l))
               then butlast (k # keys_of c) else k # keys_of c)"
      "MaxEntries c' = MaxEntries c" "OnEvicted c' = OnEvicted c"
      "set (map fst mp') \<subseteq> insert k (set (map fst mp))"
      by blast
    have sub: "set (keys_of c') \<subseteq> insert k (set (keys_of c))"
    proof (cases "map_index mp k \<noteq> None")
      case True
      with c'(6) have "keys_of c' = k # remove1 k (keys_of c)" by simp
      then show ?thesis using set_remove1_subset[of k "keys_of c"] by auto
    next
      case False
      with c'(6) have "keys_of c' = butlast (k # keys_of c) \<or> keys_of c' = k # keys_of c"
        by auto
      then show ?thesis
      proof
        assume "keys_of c' = butlast (k # keys_of c)"
        then have "set (keys_of c') \<subseteq> set (k # keys_of c)"
          by (auto dest: in_set_butlastD)
        then show ?thesis by simp
      next
        assume "keys_of c' = k # keys_of c"
        then show ?thesis by auto
      qed
    qed
    have nk: "NaN \<notin> set (keys_of c')" using sub kn N(2) by auto
    have nm: "NaN \<notin> set (map fst mp')" using c'(9) kn N(1) by auto
    have r: "by_recency (ops @ [x]) (keys_of c')"
    proof (cases "map_index mp k \<noteq> None")
      case True
      with t c'(6) show ?thesis by simp
    next
      case False
      then have "remove1 k (keys_of c) = keys_of c" using ab by (simp add: remove1_idem)
      with t have t': "by_recency (ops @ [x]) (k # keys_of c)" by simp
      from by_recency_butlast[OF t'] t' c'(6) False show ?thesis by simp
    qed
    from c' nk nm r OpAdd show ?thesis by simp
  next
    case (OpGet k)
    have t: "by_recency (ops @ [x]) (k # remove1 k (keys_of c))"
      by (rule by_recency_touch[OF s d]) (auto simp: OpGet)
    from Get_linked[OF c L, of k] obtain c' l' r where c':
      "Get k c = Inr (r, c')" "cache c' = Some mp" "ll c' = Some l'"
      "linked (elems c') (map_index mp) l'"
      "keys_of c' = (if map_index mp k = None then keys_of c else k # remove1 k (keys_of c))"
      "MaxEntries c' = MaxEntries c" "OnEvicted c' = OnEvicted c"
      by blast
    have hit: "map_index mp k \<noteq> None \<Longrightarrow> k \<noteq> NaN" using map_index_NaN[of mp] by auto
    have nk: "NaN \<notin> set (keys_of c')"
      using c'(5) N(2) hit set_remove1_subset[of k "keys_of c"] by (auto split: if_splits)
    have r: "by_recency (ops @ [x]) (keys_of c')"
    proof (cases "map_index mp k = None")
      case False
      with t c'(5) show ?thesis by simp
    next
      case True
      from ab[OF True] have "\<forall>k' \<in> set (keys_of c). \<not> accesses x k'" by (auto simp: OpGet)
      from by_recency_keep[OF s this] c'(5) True show ?thesis by simp
    qed
    from c' T N(1) nk r OpGet show ?thesis by simp
  next
    case (OpRemove k)
    from Remove_linked[OF c L T, of k] obtain c' mp' l' where c':
      "Remove k c = Inr c'" "cache c' = Some mp'" "ll c' = Some l'"
      "linked (elems c') (map_index mp') l'"
      "distinct (filter (\<lambda>k. k \<noteq> NaN) (map fst mp'))"
      "keys_of c' = (if map_index mp k = None then keys_of c else remove1 k (keys_of c))"
      "MaxEntries c' = MaxEntries c" "OnEvicted c' = OnEvicted c"
      "set (map fst mp') \<subseteq> set (map fst mp)"
      by blast
    have nk: "NaN \<notin> set (keys_of c')"
      using c'(6) N(2) set_remove1_subset[of k "keys_of c"] by (auto split: if_splits)
    have n: "\<forall>k' \<in> set (keys_of c'). \<not> accesses x k'" by (simp add: OpRemove)
    have "by_recency ops (keys_of c')"
      using c'(6) s by_recency_remove1[OF s, of k] by (simp split: if_splits)
    from by_recency_keep[OF this n] have r: "by_recency (ops @ [x]) (keys_of c')" .
    have nm: "NaN \<notin> set (map fst mp')" using c'(9) N(1) by auto
    from c' nk nm r OpRemove show ?thesis by simp
  next
    case OpRemoveOldest
    from RemoveOldest_linked[OF c L T] obtain c' mp' where c':
      "RemoveOldest c = Inr c'" "cache c' = Some mp'" "ll c' = Some (butlast l)"
      "linked (elems c') (map_index mp') (butlast l)"
      "distinct (filter (\<lambda>k. k \<noteq> NaN) (map fst mp'))"
      "keys_of c' = butlast (keys_of c)"
      "MaxEntries c' = MaxEntries c" "OnEvicted c' = OnEvicted c"
      "set (map fst mp') \<subseteq> set (map fst mp)"
      by blast
    have nk: "NaN \<notin> set (keys_of c')"
      using c'(6) N(2) in_set_butlastD[of NaN "keys_of c"] by auto
    have n: "\<forall>k' \<in> set (butlast (keys_of c)). \<not> accesses x k'" by (simp add: OpRemoveOldest)
    from by_recency_keep[OF by_recency_butlast[OF s] n] c'(6)
    have r: "by_recency (ops @ [x]) (keys_of c')" by simp
    have nm: "NaN \<notin> set (map fst mp')" using c'(9) N(1) by auto
    from c' nk nm r OpRemoveOldest show ?thesis by simp
  next
    case OpLen
    have n: "\<forall>k' \<in> set (keys_of c). \<not> accesses x k'" by (simp add: OpLen)
    from by_recency_keep[OF s n] c L T N OpLen show ?thesis by (simp add: Len_def)
  qed
qed

lemma run_ops_recency:
  assumes "list_all (\<lambda>x. \<not> adds_NaN x) ops"
  shows "\<exists>c mp l. run_ops ops ((New n)\<lparr>OnEvicted := f\<rparr>) = Inr c \<and>
           cache c = Some mp \<and> ll c = Some l \<and> linked (elems c) (map_index mp) l \<and>
           distinct (filter (\<lambda>k. k \<noteq> NaN) (map fst mp)) \<and>
           NaN \<notin> set (map fst mp) \<and> NaN \<notin> set (keys_of c) \<and>
           by_recency ops (keys_of c)"
  using assms
proof (induction ops rule: rev_induct)
  case Nil
  show ?case by (simp add: New_def linked_Nil by_recency_def keys_of_def)
next
  case (snoc x xs)
  then obtain c mp l where c: "run_ops xs ((New n)\<lparr>OnEvicted := f\<rparr>) = Inr c"
    "cache c = Some mp" "ll c = Some l" "linked (elems c) (map_index mp) l"
    "distinct (filter (\<lambda>k. k \<noteq> NaN) (map fst mp))"
    "NaN \<notin> set (map fst mp)" "NaN \<notin> set (keys_of c)" "by_recency xs (keys_of c)"
    by auto
  from snoc.prems have x: "\<not> adds_NaN x" by simp
  from apply_op_recency[OF c(2,3,4,5,6,7,8) x] c(1) show ?case
    by (auto simp: run_ops_append)
qed

subsection \<open>The claims about the cache\<close>

lemmas lru_defs =
  New_def Add_def Get_def Remove_def RemoveOldest_def removeElement_def Len_def
  MoveToFront_def Back_def Let_def map_index_def map_assign_def map_delete_def go_eq_def

text \<open>
  The invariant of C2 for programs that add no key that fails to equal itself: after
  every sequence of calls on a cache built by \<open>New\<close>, no call has failed, the lookup map
  and the recency sequence are linked one to one, no key is bound twice, the length of
  the sequence is the size of the map, and the keys of the sequence are in order of
  recency of access, most recent first.
\<close>

theorem consistent_with_self_equal_keys:
  assumes "list_all (\<lambda>x. \<not> adds_NaN x) ops"
  shows "\<exists>c mp l. run_ops ops ((New n)\<lparr>OnEvicted := f\<rparr>) = Inr c \<and>
           cache c = Some mp \<and> ll c = Some l \<and> linked (elems c) (map_index mp) l \<and>
           distinct (map fst mp) \<and> length l = length mp \<and> by_recency ops (keys_of c)"
proof -
  from run_ops_recency[OF assms, where n = n and f = f] obtain c mp l where c:
    "run_ops ops ((New n)\<lparr>OnEvicted := f\<rparr>) = Inr c"
    "cache c = Some mp" "ll c = Some l" "linked (elems c) (map_index mp) l"
    "distinct (filter (\<lambda>k. k \<noteq> NaN) (map fst mp))"
    "NaN \<notin> set (map fst mp)" "NaN \<notin> set (keys_of c)" "by_recency ops (keys_of c)"
    by blast
  have f1: "filter (\<lambda>k. k \<noteq> NaN) (map fst mp) = map fst mp" by (rule filter_no_NaN[OF c(6)])
  have f2: "filter (\<lambda>k. k \<noteq> NaN) (map (\<lambda>a. key (elems c ! a)) l) =
            map (\<lambda>a. key (elems c ! a)) l"
    using filter_no_NaN[OF c(7)] c(3) by (simp add: keys_of_def)
  have "length (map fst mp) = length (map (\<lambda>a. key (elems c ! a)) l)"
    using linked_sizes[OF c(4,5)] unfolding f1 f2 .
  then have len: "length l = length mp" by simp
  from c(5) have d: "distinct (map fst mp)" unfolding f1 .
  from c(1,2,3,4,8) d len show ?thesis by blast
qed

text \<open>
  C2. The claim fails on the code when a key does not equal itself. On a cache built by
  \<open>New(1)\<close>, two \<open>Add\<close> calls with a NaN key miss the lookup of line 149 both times, so
  each stores a binding (line 156); the second pushes the list over capacity, and
  \<open>removeElement\<close> takes the first element out of the list (line 200) while the
  \<open>delete\<close> of line 202 removes nothing. The list then has one element, the map has two
  bindings, and one of them points to the element that is no longer in the list.
\<close>

theorem C2_NaN_key_leaves_map_and_list_apart:
  "\<exists>c. run_ops [OpAdd NaN (Some 1), OpAdd NaN (Some 2)] (New 1 :: (string, int) Cache) = Inr c \<and>
     ll c = Some [1] \<and> cache c = Some [(NaN, 0), (NaN, 1)] \<and>
     length (the (ll c)) = 1 \<and> length (the (cache c)) = 2 \<and>
     0 \<notin> set (the (ll c)) \<and> (NaN, 0) \<in> set (the (cache c)) \<and>
     map_index (the (cache c)) NaN = None"
  by (simp add: lru_defs)

text \<open>
  C4. On a cache built by \<open>New(2)\<close> with an eviction callback, \<open>Add("a",1)\<close>,
  \<open>Add("b",2)\<close>, \<open>Add("c",3)\<close> leave exactly the keys b and c: \<open>Get("a")\<close> misses,
  \<open>Get("b")\<close> and \<open>Get("c")\<close> hit, \<open>Len()\<close> is 2, and the callback has been called once,
  with key a and value 1.
\<close>

theorem C4_capacity_eviction:
  "\<exists>c. run_ops [OpAdd (Key ''a'') (Some 1), OpAdd (Key ''b'') (Some 2), OpAdd (Key ''c'') (Some 3)]
          ((New 2)\<lparr>OnEvicted := True\<rparr> :: (string, int) Cache) = Inr c \<and>
     (\<exists>c'. Get (Key ''a'') c = Inr ((None, False), c')) \<and>
     (\<exists>c'. Get (Key ''b'') c = Inr ((Some 2, True), c')) \<and>
     (\<exists>c'. Get (Key ''c'') c = Inr ((Some 3, True), c')) \<and>
     Len c = Inr 2 \<and>
     (\<forall>k. (\<exists>v c'. Get k c = Inr ((v, True), c')) = (k = Key ''b'' \<or> k = Key ''c'')) \<and>
     evicted c = [(Key ''a'', Some 1)]"
  by (simp add: lru_defs)

text \<open>
  C5. On a cache built by \<open>New(2)\<close>, \<open>Add("a",1)\<close>, \<open>Add("b",2)\<close>, \<open>Get("a")\<close>,
  \<open>Add("c",3)\<close> evict b, the least recently used key, and leave exactly the keys a and
  c: the \<open>Get\<close> has moved a to the front of the recency sequence.
\<close>

theorem C5_recency_promotion:
  "\<exists>c. run_ops [OpAdd (Key ''a'') (Some 1), OpAdd (Key ''b'') (Some 2), OpGet (Key ''a''),
                OpAdd (Key ''c'') (Some 3)]
          ((New 2)\<lparr>OnEvicted := True\<rparr> :: (string, int) Cache) = Inr c \<and>
     (\<exists>c'. Get (Key ''a'') c = Inr ((Some 1, True), c')) \<and>
     (\<exists>c'. Get (Key ''b'') c = Inr ((None, False), c')) \<and>
     (\<exists>c'. Get (Key ''c'') c = Inr ((Some 3, True), c')) \<and>
     Len c = Inr 2 \<and>
     (\<forall>k. (\<exists>v c'. Get k c = Inr ((v, True), c')) = (k = Key ''a'' \<or> k = Key ''c'')) \<and>
     keys_of c = [Key ''c'', Key ''a''] \<and>
     evicted c = [(Key ''b'', Some 2)] \<and>
     (\<exists>c1. run_ops [OpAdd (Key ''a'') (Some 1), OpAdd (Key ''b'') (Some 2)]
              ((New 2)\<lparr>OnEvicted := True\<rparr> :: (string, int) Cache) = Inr c1 \<and>
           keys_of c1 = [Key ''b'', Key ''a''] \<and>
           (\<exists>c2. Get (Key ''a'') c1 = Inr ((Some 1, True), c2) \<and>
                 keys_of c2 = [Key ''a'', Key ''b'']))"
  by (simp add: lru_defs keys_of_def)

lemma Len_linked: "cache c = Some mp \<Longrightarrow> ll c = Some l \<Longrightarrow> Len c = Inr (int (length (keys_of c)))"
  by (simp add: Len_def keys_of_def)

lemma Get_hit_iff:
  assumes c: "cache c = Some mp" "ll c = Some l" and L: "linked (elems c) (map_index mp) l"
  shows "(\<exists>r c'. Get k c = Inr ((r, True), c')) = (map_index mp k \<noteq> None)"
proof (cases "map_index mp k")
  case None
  with c show ?thesis by (simp add: Get_def)
next
  case (Some a)
  have lt: "a < length (elems c)" by (rule linked_lt[OF L linked_mem[OF L Some]])
  from c Some lt show ?thesis by (simp add: Get_def)
qed

lemma length_touch: "k \<in> set ks \<Longrightarrow> length (k # remove1 k ks) = length ks"
  using length_pos_if_in_set[of k ks] by (simp add: length_remove1)

text \<open>
  C8. On a cache built by \<open>New(0)\<close>, after any sequence of calls, \<open>Add\<close> succeeds, does
  not call the eviction callback, and leaves \<open>Len()\<close> one higher when the key was absent
  (and unchanged when it was present): capacity zero never evicts.
\<close>

theorem C8_unbounded_mode:
  "\<exists>c c' n. run_ops ops ((New 0)\<lparr>OnEvicted := f\<rparr>) = Inr c \<and>
     Add k v c = Inr c' \<and> evicted c' = evicted c \<and>
     Len c = Inr n \<and>
     Len c' = Inr (if \<exists>r c''. Get k c = Inr ((r, True), c'') then n else n + 1)"
proof -
  let ?c0 = "(New 0 :: ('a, 'b) Cache)\<lparr>OnEvicted := f\<rparr>"
  have c0: "cache ?c0 = Some []" "ll ?c0 = Some []" "linked (elems ?c0) (map_index []) []"
    "distinct (filter (\<lambda>k. k \<noteq> NaN) (map fst ([] :: ('a Key \<times> nat) list)))"
    by (simp_all add: New_def linked_Nil)
  from run_ops_linked[OF c0, of ops] obtain c mp l where c:
    "run_ops ops ?c0 = Inr c" "cache c = Some mp" "ll c = Some l"
    "linked (elems c) (map_index mp) l" "distinct (filter (\<lambda>k. k \<noteq> NaN) (map fst mp))"
    "MaxEntries c = MaxEntries ?c0"
    by blast
  have z: "MaxEntries c = 0" using c(6) by (simp add: New_def)
  from Add_linked[OF c(2,3,4,5), of k v] z obtain c' mp' l' where c':
    "Add k v c = Inr c'" "cache c' = Some mp'" "ll c' = Some l'"
    "keys_of c' = (if map_index mp k \<noteq> None then k # remove1 k (keys_of c) else k # keys_of c)"
    "evicted c' = evicted c"
    by auto
  have p: "map_index mp k \<noteq> None \<Longrightarrow> k \<in> set (keys_of c)"
    using linked_present[OF c(4), of k] c(3) by (auto simp: keys_of_def)
  have "int (length (keys_of c')) =
        (if map_index mp k \<noteq> None then int (length (keys_of c))
         else int (length (keys_of c)) + 1)"
    unfolding c'(4) using length_touch[of k "keys_of c"] p by simp
  with c(1) c'(1,5) Len_linked[OF c(2,3)] Len_linked[OF c'(2,3)] Get_hit_iff[OF c(2,3,4), of k]
  show ?thesis by simp
qed

theorem C8_witness:
  "\<exists>c c' n. run_ops [OpAdd (Key ''a'') (Some (1::int)), OpAdd (Key ''b'') (Some 2),
                     OpAdd (Key ''c'') (Some 3)]
                ((New 0)\<lparr>OnEvicted := True\<rparr>) = Inr c \<and>
     Add (Key ''d'') (Some 4) c = Inr c' \<and> evicted c' = evicted c \<and>
     Len c = Inr n \<and>
     Len c' = Inr (if \<exists>r c''. Get (Key ''d'') c = Inr ((r, True), c'') then n else n + 1) \<and>
     n = 3 \<and> Len c' = Inr 4 \<and> evicted c' = []"
  using C8_unbounded_mode
    [where ops = "[OpAdd (Key ''a'') (Some (1::int)), OpAdd (Key ''b'') (Some 2),
                   OpAdd (Key ''c'') (Some 3)]"
       and f = True and k = "Key ''d''" and v = "Some 4"]
  by (simp add: lru_defs)

text \<open>
  C9. \<open>Remove\<close> of a key that \<open>Get\<close> does not find returns the very same state: entries,
  values, recency order and the record of callback calls are unchanged. \<open>Remove\<close> of a
  key that \<open>Get\<close> finds with value \<open>r\<close>, in a consistent cache, deletes that key and no
  other (the remaining keys keep their order and their values, \<open>Len()\<close> drops by one,
  \<open>Get\<close> of the key now misses) and, when a callback is configured, calls it once with
  the removed key and its value.
\<close>

theorem C9_remove:
  "(Get k c = Inr ((r, False), c1) \<longrightarrow> Remove k c = Inr c) \<and>
   (consistent c \<and> Get k c = Inr ((r, True), c1) \<longrightarrow>
      (\<exists>c' n. Remove k c = Inr c' \<and> consistent c' \<and>
         keys_of c' = remove1 k (keys_of c) \<and> k \<notin> set (keys_of c') \<and>
         Get k c' = Inr ((None, False), c') \<and>
         (\<forall>k'. k' \<noteq> k \<longrightarrow> map_sum id fst (Get k' c') = map_sum id fst (Get k' c)) \<and>
         Len c = Inr n \<and> Len c' = Inr (n - 1) \<and>
         evicted c' = (if OnEvicted c then evicted c @ [(k, r)] else evicted c)))"
proof (intro conjI impI)
  assume "Get k c = Inr ((r, False), c1)"
  then show "Remove k c = Inr c"
    by (auto simp: Get_def Remove_def split: option.splits if_splits)
next
  assume a: "consistent c \<and> Get k c = Inr ((r, True), c1)"
  then obtain mp where mp: "cache c = Some mp"
    by (auto simp: Get_def split: option.splits)
  with a obtain l where l: "ll c = Some l"
    by (auto simp: consistent_def split: option.splits)
  have L: "linked (elems c) (map_index mp) l"
    and T: "distinct (filter (\<lambda>k. k \<noteq> NaN) (map fst mp))"
    using a consistent_linked[OF mp l] by simp_all
  from a mp l obtain e where e: "map_index mp k = Some e" "r = value' (elems c ! e)"
    by (auto simp: Get_def split: option.splits if_splits)
  have kn: "k \<noteq> NaN" by (rule linked_found[OF L e(1)])
  have p: "k \<in> set (keys_of c)" using linked_present[OF L e(1)] l by (simp add: keys_of_def)
  from Remove_linked[OF mp l L T, of k] e obtain c' mp' l' where c':
    "Remove k c = Inr c'" "cache c' = Some mp'" "ll c' = Some l'"
    "linked (elems c') (map_index mp') l'"
    "distinct (filter (\<lambda>k. k \<noteq> NaN) (map fst mp'))"
    "keys_of c' = remove1 k (keys_of c)"
    "\<forall>k'. map_index mp' k' = (if go_eq k k' then None else map_index mp k')"
    "elems c' = elems c"
    "evicted c' = (if OnEvicted c then evicted c @ [(k, r)] else evicted c)"
    by auto
  have cons: "consistent c'" using consistent_linked[OF c'(2,3)] c'(4,5) by simp
  have nk: "k \<notin> set (keys_of c')"
    using keys_once[OF L e(1)] l unfolding c'(6) by (simp add: keys_of_def)
  have "map_index mp' k = None" using c'(7) kn by (simp add: go_eq_def)
  then have g: "Get k c' = Inr ((None, False), c')" using c'(2) by (simp add: Get_def)
  have o: "\<forall>k'. k' \<noteq> k \<longrightarrow> map_sum id fst (Get k' c') = map_sum id fst (Get k' c)"
  proof (intro allI impI)
    fix k' assume "k' \<noteq> k"
    then have m: "map_index mp' k' = map_index mp k'" using c'(7) by (simp add: go_eq_def)
    from Get_linked[OF c'(2,3,4), of k'] obtain r' c2 where r':
      "Get k' c' = Inr (r', c2)"
      "r' = (case map_index mp' k' of Some a \<Rightarrow> (value' (elems c' ! a), True)
             | None \<Rightarrow> (None, False))"
      by blast
    from Get_linked[OF mp l L, of k'] obtain r'' c3 where r'':
      "Get k' c = Inr (r'', c3)"
      "r'' = (case map_index mp k' of Some a \<Rightarrow> (value' (elems c ! a), True)
              | None \<Rightarrow> (None, False))"
      by blast
    from r' r'' m c'(8) show "map_sum id fst (Get k' c') = map_sum id fst (Get k' c)"
      by (simp cong: option.case_cong)
  qed
  have len: "int (length (keys_of c')) = int (length (keys_of c)) - 1"
    using length_touch[OF p] unfolding c'(6) by simp
  from c'(1,6,9) cons nk g o len Len_linked[OF mp l] Len_linked[OF c'(2,3)]
  show "\<exists>c' n. Remove k c = Inr c' \<and> consistent c' \<and>
         keys_of c' = remove1 k (keys_of c) \<and> k \<notin> set (keys_of c') \<and>
         Get k c' = Inr ((None, False), c') \<and>
         (\<forall>k'. k' \<noteq> k \<longrightarrow> map_sum id fst (Get k' c') = map_sum id fst (Get k' c)) \<and>
         Len c = Inr n \<and> Len c' = Inr (n - 1) \<and>
         evicted c' = (if OnEvicted c then evicted c @ [(k, r)] else evicted c)"
    by simp
qed

theorem C9_witness:
  "Get (Key ''z'') \<lparr>MaxEntries = 2, OnEvicted = True, ll = Some [1, 0],
             cache = Some [(Key ''a'', 0), (Key ''b'', 1)],
             elems = [\<lparr>key = Key ''a'', value' = Some (1::int)\<rparr>,
                      \<lparr>key = Key ''b'', value' = Some 2\<rparr>],
             evicted = []\<rparr>
   = Inr ((None, False),
          \<lparr>MaxEntries = 2, OnEvicted = True, ll = Some [1, 0],
           cache = Some [(Key ''a'', 0), (Key ''b'', 1)],
           elems = [\<lparr>key = Key ''a'', value' = Some 1\<rparr>, \<lparr>key = Key ''b'', value' = Some 2\<rparr>],
           evicted = []\<rparr>) \<and>
   Remove (Key ''z'') \<lparr>MaxEntries = 2, OnEvicted = True, ll = Some [1, 0],
             cache = Some [(Key ''a'', 0), (Key ''b'', 1)],
             elems = [\<lparr>key = Key ''a'', value' = Some (1::int)\<rparr>,
                      \<lparr>key = Key ''b'', value' = Some 2\<rparr>],
             evicted = []\<rparr>
   = Inr \<lparr>MaxEntries = 2, OnEvicted = True, ll = Some [1, 0],
           cache = Some [(Key ''a'', 0), (Key ''b'', 1)],
           elems = [\<lparr>key = Key ''a'', value' = Some 1\<rparr>, \<lparr>key = Key ''b'', value' = Some 2\<rparr>],
           evicted = []\<rparr> \<and>
   consistent \<lparr>MaxEntries = 2, OnEvicted = True, ll = Some [1, 0],
             cache = Some [(Key ''a'', 0), (Key ''b'', 1)],
             elems = [\<lparr>key = Key ''a'', value' = Some (1::int)\<rparr>,
                      \<lparr>key = Key ''b'', value' = Some 2\<rparr>],
             evicted = []\<rparr> \<and>
   Get (Key ''a'') \<lparr>MaxEntries = 2, OnEvicted = True, ll = Some [1, 0],
             cache = Some [(Key ''a'', 0), (Key ''b'', 1)],
             elems = [\<lparr>key = Key ''a'', value' = Some (1::int)\<rparr>,
                      \<lparr>key = Key ''b'', value' = Some 2\<rparr>],
             evicted = []\<rparr>
   = Inr ((Some 1, True),
          \<lparr>MaxEntries = 2, OnEvicted = True, ll = Some [0, 1],
           cache = Some [(Key ''a'', 0), (Key ''b'', 1)],
           elems = [\<lparr>key = Key ''a'', value' = Some 1\<rparr>, \<lparr>key = Key ''b'', value' = Some 2\<rparr>],
           evicted = []\<rparr>) \<and>
   (\<exists>c'. Remove (Key ''a'') \<lparr>MaxEntries = 2, OnEvicted = True, ll = Some [1, 0],
             cache = Some [(Key ''a'', 0), (Key ''b'', 1)],
             elems = [\<lparr>key = Key ''a'', value' = Some (1::int)\<rparr>,
                      \<lparr>key = Key ''b'', value' = Some 2\<rparr>],
             evicted = []\<rparr> = Inr c' \<and>
         consistent c' \<and> keys_of c' = [Key ''b''] \<and> Len c' = Inr 1 \<and>
         evicted c' = [(Key ''a'', Some 1)])"
proof -
  let ?c = "\<lparr>MaxEntries = 2, OnEvicted = True, ll = Some [1, 0],
             cache = Some [(Key ''a'', 0), (Key ''b'', 1)],
             elems = [\<lparr>key = Key ''a'', value' = Some (1::int)\<rparr>,
                      \<lparr>key = Key ''b'', value' = Some 2\<rparr>],
             evicted = []\<rparr>"
  have g1: "Get (Key ''z'') ?c = Inr ((None, False), ?c)"
    by (simp add: Get_def map_index_def go_eq_def)
  have g2: "Get (Key ''a'') ?c = Inr ((Some 1, True), ?c\<lparr>ll := Some [0, 1]\<rparr>)"
    by (simp add: Get_def MoveToFront_def map_index_def go_eq_def)
  have co: "consistent ?c"
    by (auto simp: consistent_def linked_def keys_of_def map_index_def go_eq_def
             split: if_splits)
  have k: "keys_of ?c = [Key ''b'', Key ''a'']" by (simp add: keys_of_def)
  have l: "Len ?c = Inr 2" by (simp add: Len_def)
  from C9_remove[of "Key ''z''" ?c None ?c] g1 have r1: "Remove (Key ''z'') ?c = Inr ?c" by blast
  from C9_remove[of "Key ''a''" ?c "Some 1" "?c\<lparr>ll := Some [0, 1]\<rparr>"] g2 co
  obtain c' n where c': "Remove (Key ''a'') ?c = Inr c'" "consistent c'"
    "keys_of c' = remove1 (Key ''a'') (keys_of ?c)" "Len ?c = Inr n" "Len c' = Inr (n - 1)"
    "evicted c' = (if OnEvicted ?c then evicted ?c @ [(Key ''a'', Some 1)] else evicted ?c)"
    by blast
  from c' k l have "consistent c' \<and> keys_of c' = [Key ''b''] \<and> Len c' = Inr 1 \<and>
         evicted c' = [(Key ''a'', Some 1)]" by simp
  with c'(1) g1 g2 r1 co show ?thesis by simp
qed

subsection \<open>A cache that was not built with New\<close>

lemma Add_nil:
  assumes "cache c = None"
  shows "Add k v c = Add k v (c\<lparr>cache := Some [], ll := Some []\<rparr>)"
  using assms by (simp add: Add_def)

lemma apply_op_safe:
  assumes "cache c = None \<or>
           (\<exists>mp l. cache c = Some mp \<and> ll c = Some l \<and> linked (elems c) (map_index mp) l \<and>
                   distinct (filter (\<lambda>k. k \<noteq> NaN) (map fst mp)))"
  shows "\<exists>c'. apply_op x c = Inr c' \<and>
           (cache c' = None \<or>
            (\<exists>mp l. cache c' = Some mp \<and> ll c' = Some l \<and>
                    linked (elems c') (map_index mp) l \<and>
                    distinct (filter (\<lambda>k. k \<noteq> NaN) (map fst mp))))"
proof (cases "cache c")
  case None
  let ?c = "c\<lparr>cache := Some [], ll := Some []\<rparr>"
  have i: "cache ?c = Some []" "ll ?c = Some []" "linked (elems ?c) (map_index []) []"
    "distinct (filter (\<lambda>k. k \<noteq> NaN) (map fst ([] :: ('a Key \<times> nat) list)))"
    by (simp_all add: linked_Nil)
  show ?thesis
  proof (cases x)
    case (OpAdd k v)
    from Add_linked[OF i, of k v] Add_nil[OF None, of k v] OpAdd show ?thesis by auto
  qed (use None in \<open>simp_all add: Get_def Remove_def RemoveOldest_def Len_def\<close>)
next
  case (Some mp)
  with assms obtain l where l: "ll c = Some l" "linked (elems c) (map_index mp) l"
    "distinct (filter (\<lambda>k. k \<noteq> NaN) (map fst mp))" by auto
  from apply_op_linked[OF Some l, of x] show ?thesis by blast
qed

lemma run_ops_safe:
  "cache c = None \<or>
   (\<exists>mp l. cache c = Some mp \<and> ll c = Some l \<and> linked (elems c) (map_index mp) l \<and>
           distinct (filter (\<lambda>k. k \<noteq> NaN) (map fst mp))) \<Longrightarrow>
   \<exists>c'. run_ops ops c = Inr c' \<and>
           (cache c' = None \<or>
            (\<exists>mp l. cache c' = Some mp \<and> ll c' = Some l \<and>
                    linked (elems c') (map_index mp) l \<and>
                    distinct (filter (\<lambda>k. k \<noteq> NaN) (map fst mp))))"
proof (induction ops arbitrary: c)
  case Nil
  then show ?case by simp
next
  case (Cons x xs)
  from apply_op_safe[OF Cons.prems, of x] obtain c1 where c1: "apply_op x c = Inr c1"
    "cache c1 = None \<or>
     (\<exists>mp l. cache c1 = Some mp \<and> ll c1 = Some l \<and> linked (elems c1) (map_index mp) l \<and>
             distinct (filter (\<lambda>k. k \<noteq> NaN) (map fst mp)))"
    by blast
  from Cons.IH[OF c1(2)] c1(1) show ?case by simp
qed

text \<open>
  C10. On a cache whose map is nil (the zero value, or a struct literal that sets only
  the exported fields), \<open>Get\<close> returns \<open>(nil, false)\<close>, \<open>Remove\<close> and \<open>RemoveOldest\<close>
  return the same state, \<open>Len\<close> returns 0, and \<open>Add\<close> creates the map and the list and
  succeeds; with a capacity that is not negative the added key is then the one entry of
  the cache (and \<open>Get\<close> finds it, unless the key does not equal itself). No sequence of
  calls on such a cache fails.
\<close>

theorem C10_zero_value_safe:
  "cache c = None \<longrightarrow>
     Get k c = Inr ((None, False), c) \<and> Remove k c = Inr c \<and> RemoveOldest c = Inr c \<and>
     Len c = Inr 0 \<and>
     (\<exists>c'. Add k v c = Inr c' \<and> cache c' \<noteq> None \<and> consistent c' \<and>
        (0 \<le> MaxEntries c \<longrightarrow>
           keys_of c' = [k] \<and> Len c' = Inr 1 \<and>
           Get k c' = Inr (if k = NaN then (None, False) else (v, True), c'))) \<and>
     (\<forall>ops. \<exists>c'. run_ops ops c = Inr c')"
proof (intro impI conjI allI)
  assume n: "cache c = None"
  show "Get k c = Inr ((None, False), c)" using n by (simp add: Get_def)
  show "Remove k c = Inr c" using n by (simp add: Remove_def)
  show "RemoveOldest c = Inr c" using n by (simp add: RemoveOldest_def)
  show "Len c = Inr 0" using n by (simp add: Len_def)
  show "\<exists>c'. Add k v c = Inr c' \<and> cache c' \<noteq> None \<and> consistent c' \<and>
        (0 \<le> MaxEntries c \<longrightarrow>
           keys_of c' = [k] \<and> Len c' = Inr 1 \<and>
           Get k c' = Inr (if k = NaN then (None, False) else (v, True), c'))"
  proof -
    let ?c = "c\<lparr>cache := Some [], ll := Some []\<rparr>"
    have i: "cache ?c = Some []" "ll ?c = Some []" "linked (elems ?c) (map_index []) []"
      "distinct (filter (\<lambda>k. k \<noteq> NaN) (map fst ([] :: ('a Key \<times> nat) list)))"
      by (simp_all add: linked_Nil)
    from Add_linked[OF i, of k v] Add_nil[OF n, of k v] obtain c' mp' l' where c':
      "Add k v c = Inr c'" "cache c' = Some mp'" "ll c' = Some l'"
      "linked (elems c') (map_index mp') l'"
      "distinct (filter (\<lambda>k. k \<noteq> NaN) (map fst mp'))"
      by auto
    have co: "consistent c'" using consistent_linked[OF c'(2,3)] c'(4,5) by simp
    have "0 \<le> MaxEntries c \<longrightarrow>
           keys_of c' = [k] \<and> Len c' = Inr 1 \<and>
           Get k c' = Inr (if k = NaN then (None, False) else (v, True), c')"
    proof
      assume "0 \<le> MaxEntries c"
      then have "Add k v c =
        Inr (c\<lparr>cache := Some [(k, length (elems c))], ll := Some [length (elems c)],
               elems := elems c @ [\<lparr>key = k, value' = v\<rparr>]\<rparr>)"
        using n by (auto simp: Add_def Let_def map_assign_def map_index_def)
      with c'(1) have "c' = c\<lparr>cache := Some [(k, length (elems c))],
           ll := Some [length (elems c)], elems := elems c @ [\<lparr>key = k, value' = v\<rparr>]\<rparr>"
        by simp
      then show "keys_of c' = [k] \<and> Len c' = Inr 1 \<and>
                 Get k c' = Inr (if k = NaN then (None, False) else (v, True), c')"
        by (simp add: keys_of_def Len_def Get_def MoveToFront_def map_index_def go_eq_def)
    qed
    with c'(1,2) co show ?thesis by simp
  qed
  fix ops
  from run_ops_safe[of c ops] n show "\<exists>c'. run_ops ops c = Inr c'" by blast
qed

theorem C10_witness:
  "cache (zero_Cache :: (string, int) Cache) = None \<and>
   Get (Key ''a'') (zero_Cache :: (string, int) Cache) = Inr ((None, False), zero_Cache) \<and>
   Remove (Key ''a'') (zero_Cache :: (string, int) Cache) = Inr zero_Cache \<and>
   RemoveOldest (zero_Cache :: (string, int) Cache) = Inr zero_Cache \<and>
   Len (zero_Cache :: (string, int) Cache) = Inr 0 \<and>
   (\<exists>c'. Add (Key ''a'') (Some 1) (zero_Cache :: (string, int) Cache) = Inr c' \<and>
         keys_of c' = [Key ''a''] \<and> Len c' = Inr 1 \<and>
         Get (Key ''a'') c' = Inr ((Some 1, True), c'))"
proof -
  have n: "cache (zero_Cache :: (string, int) Cache) = None" by (simp add: zero_Cache_def)
  have m: "0 \<le> MaxEntries (zero_Cache :: (string, int) Cache)" by (simp add: zero_Cache_def)
  from C10_zero_value_safe[of "zero_Cache :: (string, int) Cache" "Key ''a''" "Some 1"] n m
  show ?thesis by auto
qed

section \<open>Properties of the duplicate call suppression\<close>

subsection \<open>The statements, one by one\<close>

lemmas stmt_defs = stmt_def Lock_def Unlock_def panics_def deref_def

lemma stmt_threads: "stmt fn t s = Some (t', g) \<Longrightarrow> threads g = threads s"
  by (cases "pc t") (auto simp: stmt_defs split: option.splits if_splits)

lemma stmt_Do_key: "stmt fn t s = Some (t', g) \<Longrightarrow> Do_key t' = Do_key t"
  by (cases "pc t") (auto simp: stmt_defs split: option.splits if_splits)

subsection \<open>The predicates of the invariant read only part of the world\<close>

lemma filled_cong:
  "nfn s' = nfn s \<Longrightarrow> val (calls s' ! a) = val (calls s ! a) \<Longrightarrow>
   err (calls s' ! a) = err (calls s ! a) \<Longrightarrow> filled fn s' a = filled fn s a"
  by (simp add: filled_def)

lemma filled_later:
  "filled fn s a \<Longrightarrow> nfn s \<le> nfn s' \<Longrightarrow> val (calls s' ! a) = val (calls s ! a) \<Longrightarrow>
   err (calls s' ! a) = err (calls s ! a) \<Longrightarrow> filled fn s' a"
  unfolding filled_def by (metis less_le_trans)

lemma heap_same:
  assumes "nfn s' = nfn s" "length (calls s') = length (calls s)"
    and "\<And>a. a < length (calls s) \<Longrightarrow> calls s' ! a = calls s ! a"
  shows "waits fn s' p = waits fn s p" "done_call fn s' p = done_call fn s p"
    "owns s' p n = owns s p n"
  using assms by (auto simp: waits_def done_call_def owns_def filled_def)

lemma map_same:
  assumes "m s' = m s"
  shows "unpublished s' p = unpublished s p" "absent s' k = absent s k"
    "registered s' k p = registered s k p"
  using assms by (simp_all add: unpublished_def absent_def registered_def)

lemma frame_ok_same:
  assumes "mu s' = mu s" "m s' = m s" "nfn s' = nfn s" "calls s' = calls s"
  shows "frame_ok fn s' u = frame_ok fn s u"
proof -
  have h: "\<And>p n. waits fn s' p = waits fn s p" "\<And>p. done_call fn s' p = done_call fn s p"
    "\<And>p n. owns s' p n = owns s p n" "\<And>a. filled fn s' a = filled fn s a"
    using assms by (simp_all add: waits_def done_call_def owns_def filled_def)
  note ms = map_same[OF assms(2)]
  show ?thesis unfolding frame_ok_def h ms assms ..
qed

lemma map_ok_same:
  assumes "m s' = m s" "nfn s' = nfn s" "calls s' = calls s"
  shows "map_ok fn s' = map_ok fn s"
  using assms by (simp add: map_ok_def waits_def filled_def)

subsection \<open>The frame of a goroutine when another one moves\<close>

lemma frame_ok_mono:
  assumes ok: "frame_ok fn s u"
    and mu: "in_cs (pc u) \<Longrightarrow> mu s \<Longrightarrow> mu s'"
    and mnil: "m s \<noteq> None \<Longrightarrow> m s' \<noteq> None"
    and w57: "waits fn s (c57 u) \<Longrightarrow> waits fn s' (c57 u)"
    and d57: "done_call fn s (c57 u) \<Longrightarrow> done_call fn s' (c57 u)"
    and r57: "done_call fn s (c57 u) \<Longrightarrow>
              val (calls s' ! the (c57 u)) = val (calls s ! the (c57 u)) \<and>
              err (calls s' ! the (c57 u)) = err (calls s ! the (c57 u))"
    and ab: "in_cs (pc u) \<Longrightarrow> absent s (Do_key u) \<Longrightarrow> absent s' (Do_key u)"
    and ow: "\<And>n. owns s (c63 u) n \<Longrightarrow> owns s' (c63 u) n"
    and fi: "\<And>a. c63 u = Some a \<Longrightarrow> owns s (c63 u) 1 \<Longrightarrow> filled fn s a \<Longrightarrow> filled fn s' a"
    and un: "unpublished s (c63 u) \<Longrightarrow> unpublished s' (c63 u)"
    and rg: "registered s (Do_key u) (c63 u) \<Longrightarrow> registered s' (Do_key u) (c63 u)"
    and d63: "done_call fn s (c63 u) \<Longrightarrow> done_call fn s' (c63 u)"
    and r63: "done_call fn s (c63 u) \<Longrightarrow>
              val (calls s' ! the (c63 u)) = val (calls s ! the (c63 u)) \<and>
              err (calls s' ! the (c63 u)) = err (calls s ! the (c63 u))"
  shows "frame_ok fn s' u"
  using assms by (cases "pc u") (auto simp: frame_ok_def in_cs_def)

lemma cell_kept:
  assumes k: "\<forall>a. p = Some a \<longrightarrow> a < length (calls s) \<longrightarrow>
                a < length (calls s') \<and> calls s' ! a = calls s ! a"
    and n: "nfn s \<le> nfn s'"
  shows "waits fn s p \<Longrightarrow> waits fn s' p"
    and "done_call fn s p \<Longrightarrow> done_call fn s' p"
    and "owns s p i \<Longrightarrow> owns s' p i"
    and "done_call fn s p \<Longrightarrow> calls s' ! the p = calls s ! the p"
    and "\<And>a. p = Some a \<Longrightarrow> a < length (calls s) \<Longrightarrow> filled fn s a \<Longrightarrow> filled fn s' a"
proof -
  have k': "\<And>a. p = Some a \<Longrightarrow> a < length (calls s) \<Longrightarrow>
                a < length (calls s') \<and> calls s' ! a = calls s ! a"
    using k by blast
  show f: "\<And>a. p = Some a \<Longrightarrow> a < length (calls s) \<Longrightarrow> filled fn s a \<Longrightarrow> filled fn s' a"
  proof -
    fix a assume a: "p = Some a" "a < length (calls s)" "filled fn s a"
    from k'[OF a(1,2)] have e: "calls s' ! a = calls s ! a" by simp
    show "filled fn s' a" by (rule filled_later[OF a(3) n]) (simp_all add: e)
  qed
  show "waits fn s p \<Longrightarrow> waits fn s' p"
  proof -
    assume "waits fn s p"
    then obtain a where a: "p = Some a" "a < length (calls s)"
      "wg (calls s ! a) = 0 \<longrightarrow> filled fn s a" by (auto simp: waits_def)
    from k'[OF a(1,2)] have e: "a < length (calls s')" "calls s' ! a = calls s ! a" by simp_all
    have "wg (calls s' ! a) = 0 \<longrightarrow> filled fn s' a" using a(3) f[OF a(1,2)] e(2) by simp
    with a(1) e(1) show "waits fn s' p" by (auto simp: waits_def)
  qed
  show "done_call fn s p \<Longrightarrow> done_call fn s' p"
  proof -
    assume "done_call fn s p"
    then obtain a where a: "p = Some a" "a < length (calls s)"
      "wg (calls s ! a) = 0" "filled fn s a" by (auto simp: done_call_def)
    from k'[OF a(1,2)] have e: "a < length (calls s')" "calls s' ! a = calls s ! a" by simp_all
    have "wg (calls s' ! a) = 0" using a(3) e(2) by simp
    with a(1) e(1) f[OF a(1,2,4)] show "done_call fn s' p" by (auto simp: done_call_def)
  qed
  show "owns s p i \<Longrightarrow> owns s' p i"
  proof -
    assume "owns s p i"
    then obtain a where a: "p = Some a" "a < length (calls s)" "wg (calls s ! a) = i"
      by (auto simp: owns_def)
    from k'[OF a(1,2)] have e: "a < length (calls s')" "calls s' ! a = calls s ! a" by simp_all
    have "wg (calls s' ! a) = i" using a(3) e(2) by simp
    with a(1) e(1) show "owns s' p i" by (auto simp: owns_def)
  qed
  show "done_call fn s p \<Longrightarrow> calls s' ! the p = calls s ! the p"
  proof -
    assume "done_call fn s p"
    then obtain a where a: "p = Some a" "a < length (calls s)" by (auto simp: done_call_def)
    from k'[OF a(1,2)] a(1) show "calls s' ! the p = calls s ! the p" by simp
  qed
qed

lemmas heap_defs = waits_def done_call_def owns_def filled_def

lemmas map_defs = unpublished_def absent_def registered_def

lemma frame_ok_heap:
  assumes ok: "frame_ok fn s u"
    and g: "mu s' = mu s" "m s' = m s" "nfn s \<le> nfn s'"
    and k57: "\<forall>a. c57 u = Some a \<longrightarrow> a < length (calls s) \<longrightarrow>
                a < length (calls s') \<and> calls s' ! a = calls s ! a"
    and k63: "\<forall>a. c63 u = Some a \<longrightarrow> a < length (calls s) \<longrightarrow>
                a < length (calls s') \<and> calls s' ! a = calls s ! a"
  shows "frame_ok fn s' u"
proof (rule frame_ok_mono[OF ok])
  note c57 = cell_kept[of "c57 u" s s', OF k57 g(3)]
  note c63 = cell_kept[of "c63 u" s s', OF k63 g(3)]
  note ms = map_same[OF g(2)]
  show "in_cs (pc u) \<Longrightarrow> mu s \<Longrightarrow> mu s'" by (simp add: g)
  show "m s \<noteq> None \<Longrightarrow> m s' \<noteq> None" by (simp add: g)
  show "waits fn s (c57 u) \<Longrightarrow> waits fn s' (c57 u)" by (rule c57(1))
  show "done_call fn s (c57 u) \<Longrightarrow> done_call fn s' (c57 u)" by (rule c57(2))
  show "done_call fn s (c57 u) \<Longrightarrow>
        val (calls s' ! the (c57 u)) = val (calls s ! the (c57 u)) \<and>
        err (calls s' ! the (c57 u)) = err (calls s ! the (c57 u))"
    using c57(4) by simp
  show "in_cs (pc u) \<Longrightarrow> absent s (Do_key u) \<Longrightarrow> absent s' (Do_key u)" by (simp add: ms)
  show "\<And>n. owns s (c63 u) n \<Longrightarrow> owns s' (c63 u) n" by (rule c63(3))
  show "\<And>a. c63 u = Some a \<Longrightarrow> owns s (c63 u) 1 \<Longrightarrow> filled fn s a \<Longrightarrow> filled fn s' a"
  proof -
    fix a assume a: "c63 u = Some a" "owns s (c63 u) 1" "filled fn s a"
    then have "a < length (calls s)" by (simp add: owns_def)
    from c63(5)[OF a(1) this a(3)] show "filled fn s' a" .
  qed
  show "unpublished s (c63 u) \<Longrightarrow> unpublished s' (c63 u)" by (simp add: ms)
  show "registered s (Do_key u) (c63 u) \<Longrightarrow> registered s' (Do_key u) (c63 u)" by (simp add: ms)
  show "done_call fn s (c63 u) \<Longrightarrow> done_call fn s' (c63 u)" by (rule c63(2))
  show "done_call fn s (c63 u) \<Longrightarrow>
        val (calls s' ! the (c63 u)) = val (calls s ! the (c63 u)) \<and>
        err (calls s' ! the (c63 u)) = err (calls s ! the (c63 u))"
    using c63(4) by simp
qed

lemma frame_ok_map:
  assumes ok: "frame_ok fn s u"
    and g: "mu s' = mu s" "nfn s' = nfn s" "calls s' = calls s"
    and mnil: "m s \<noteq> None \<Longrightarrow> m s' \<noteq> None"
    and ab: "in_cs (pc u) \<Longrightarrow> absent s (Do_key u) \<Longrightarrow> absent s' (Do_key u)"
    and un: "unpublished s (c63 u) \<Longrightarrow> unpublished s' (c63 u)"
    and rg: "registered s (Do_key u) (c63 u) \<Longrightarrow> registered s' (Do_key u) (c63 u)"
  shows "frame_ok fn s' u"
  by (rule frame_ok_mono[OF ok])
     (simp_all add: g mnil ab un rg waits_def done_call_def owns_def filled_def)

lemma other_lock: "frame_ok fn s u \<Longrightarrow> frame_ok fn (s\<lparr>mu := True\<rparr>) u"
  by (erule frame_ok_mono) (simp_all add: heap_defs map_defs)

lemma other_unlock:
  "frame_ok fn s u \<Longrightarrow> \<not> in_cs (pc u) \<Longrightarrow> frame_ok fn (s\<lparr>mu := False\<rparr>) u"
  by (erule frame_ok_mono) (simp_all add: heap_defs map_defs)

lemma other_make:
  "frame_ok fn s u \<Longrightarrow> m s = None \<Longrightarrow> frame_ok fn (s\<lparr>m := Some Map.empty\<rparr>) u"
  by (erule frame_ok_mono) (simp_all add: heap_defs map_defs)

lemma other_alloc: "frame_ok fn s u \<Longrightarrow> frame_ok fn (s\<lparr>calls := calls s @ [x]\<rparr>) u"
  by (erule frame_ok_heap) (simp_all add: nth_append)

lemma other_wg:
  "frame_ok fn s u \<Longrightarrow> c57 u \<noteq> Some a \<Longrightarrow> c63 u \<noteq> Some a \<Longrightarrow>
   frame_ok fn (s\<lparr>calls := (calls s)[a := x]\<rparr>) u"
  by (erule frame_ok_heap) auto

lemma other_store:
  assumes ok: "frame_ok fn s u" and mp: "m s = Some mp" "mp k = None"
    and u: "\<not> in_cs (pc u)" "c63 u \<noteq> Some a"
  shows "frame_ok fn (s\<lparr>m := Some (mp(k \<mapsto> a))\<rparr>) u"
proof (rule frame_ok_map[OF ok])
  let ?s = "s\<lparr>m := Some (mp(k \<mapsto> a))\<rparr>"
  show "unpublished s (c63 u) \<Longrightarrow> unpublished ?s (c63 u)"
    using mp u(2) by (auto simp: unpublished_def)
  show "registered s (Do_key u) (c63 u) \<Longrightarrow> registered ?s (Do_key u) (c63 u)"
  proof -
    assume r: "registered s (Do_key u) (c63 u)"
    then have n: "c63 u \<noteq> None" and e: "\<And>k'. (mp k' = c63 u) = (k' = Do_key u)"
      using mp(1) by (auto simp: registered_def)
    from e[of k] mp(2) n have kk: "k \<noteq> Do_key u" by auto
    have "\<And>k'. ((mp(k \<mapsto> a)) k' = c63 u) = (k' = Do_key u)"
    proof -
      fix k' show "((mp(k \<mapsto> a)) k' = c63 u) = (k' = Do_key u)"
        using e[of k'] kk u(2) by (cases "k' = k") auto
    qed
    with n show ?thesis by (simp add: registered_def)
  qed
qed (use u in simp_all)

lemma other_delete:
  assumes ok: "frame_ok fn s u" and r: "registered s k p"
    and u: "\<not> in_cs (pc u)" "c63 u \<noteq> p"
  shows "frame_ok fn (s\<lparr>m := map_option (\<lambda>mp. mp(k := None)) (m s)\<rparr>) u"
proof (rule frame_ok_map[OF ok])
  let ?s = "s\<lparr>m := map_option (\<lambda>mp. mp(k := None)) (m s)\<rparr>"
  from r obtain mp where mp: "m s = Some mp" "p \<noteq> None" "\<And>k'. (mp k' = p) = (k' = k)"
    by (auto simp: registered_def)
  show "unpublished s (c63 u) \<Longrightarrow> unpublished ?s (c63 u)"
    using mp(1) by (auto simp: unpublished_def)
  show "registered s (Do_key u) (c63 u) \<Longrightarrow> registered ?s (Do_key u) (c63 u)"
  proof -
    assume r': "registered s (Do_key u) (c63 u)"
    then have n: "c63 u \<noteq> None" and e: "\<And>k'. (mp k' = c63 u) = (k' = Do_key u)"
      using mp(1) by (auto simp: registered_def)
    from e[of k] mp(3)[of k] u(2) have kk: "k \<noteq> Do_key u" by auto
    have "\<And>k'. ((mp(k := None)) k' = c63 u) = (k' = Do_key u)"
    proof -
      fix k' show "((mp(k := None)) k' = c63 u) = (k' = Do_key u)"
        using e[of k'] kk n by (cases "k' = k") auto
    qed
    with n mp(1) show ?thesis by (simp add: registered_def)
  qed
qed (use u in simp_all)

lemma other_cell:
  assumes ok: "frame_ok fn s u" and a: "a < length (calls s)" "wg (calls s ! a) \<noteq> 0"
    and u: "c63 u \<noteq> Some a"
    and n: "nfn s \<le> n'"
    and x: "wg x = 0 \<longrightarrow> (\<exists>j<n'. fn j = (val x, err x))"
  shows "frame_ok fn (s\<lparr>calls := (calls s)[a := x], nfn := n'\<rparr>) u"
proof (cases "c57 u = Some a")
  case False
  show ?thesis by (rule frame_ok_heap[OF ok]) (use False u n in auto)
next
  case True
  let ?s = "s\<lparr>calls := (calls s)[a := x], nfn := n'\<rparr>"
  have k63: "\<forall>b. c63 u = Some b \<longrightarrow> b < length (calls s) \<longrightarrow>
                b < length (calls ?s) \<and> calls ?s ! b = calls s ! b"
    using u by auto
  have n': "nfn s \<le> nfn ?s" using n by simp
  note c63 = cell_kept[of "c63 u" s ?s, OF k63 n']
  have nd: "\<not> done_call fn s (c57 u)" using True a by (simp add: done_call_def)
  have w: "waits fn ?s (c57 u)" using True a(1) x by (simp add: waits_def filled_def)
  show ?thesis
  proof (rule frame_ok_mono[OF ok])
    show "\<And>n. owns s (c63 u) n \<Longrightarrow> owns ?s (c63 u) n" by (rule c63(3))
    show "\<And>b. c63 u = Some b \<Longrightarrow> owns s (c63 u) 1 \<Longrightarrow> filled fn s b \<Longrightarrow> filled fn ?s b"
    proof -
      fix b assume b: "c63 u = Some b" "owns s (c63 u) 1" "filled fn s b"
      then have "b < length (calls s)" by (simp add: owns_def)
      from c63(5)[OF b(1) this b(3)] show "filled fn ?s b" .
    qed
    show "done_call fn s (c63 u) \<Longrightarrow> done_call fn ?s (c63 u)" by (rule c63(2))
    show "done_call fn s (c63 u) \<Longrightarrow>
        val (calls ?s ! the (c63 u)) = val (calls s ! the (c63 u)) \<and>
        err (calls ?s ! the (c63 u)) = err (calls s ! the (c63 u))"
      using c63(4) by simp
  qed (use nd w in \<open>simp_all add: map_defs\<close>)
qed

subsection \<open>The frame of the goroutine that moves\<close>

lemma map_okD:
  "map_ok fn s \<Longrightarrow> m s = Some mp \<Longrightarrow> mp k = Some a \<Longrightarrow> waits fn s (Some a)"
  unfolding map_ok_def by (metis option.distinct(1))

lemma map_preds_keep:
  "unpublished (mu_update f s) p = unpublished s p"
  "absent (mu_update f s) k = absent s k"
  "registered (mu_update f s) k p = registered s k p"
  "unpublished (calls_update h s) p = unpublished s p"
  "absent (calls_update h s) k = absent s k"
  "registered (calls_update h s) k p = registered s k p"
  "unpublished (nfn_update i s) p = unpublished s p"
  "absent (nfn_update i s) k = absent s k"
  "registered (nfn_update i s) k p = registered s k p"
  by (simp_all add: map_defs)

lemma registered_store:
  assumes "m s = Some mp" "unpublished s p" "p \<noteq> None"
  shows "registered (s\<lparr>m := Some (mp(k := p))\<rparr>) k p"
proof -
  have "\<And>k'. ((mp(k := p)) k' = p) = (k' = k)"
    using assms by (auto simp: unpublished_def)
  with assms(3) show ?thesis by (simp add: registered_def)
qed

lemma registered_delete:
  assumes "registered s k p"
  shows "unpublished (s\<lparr>m := map_option (\<lambda>mp. mp(k := None)) (m s)\<rparr>) p"
proof -
  from assms obtain mp where mp: "m s = Some mp" "p \<noteq> None" "\<And>k'. (mp k' = p) = (k' = k)"
    by (auto simp: registered_def)
  have "\<And>k'. (mp(k := None)) k' \<noteq> p"
  proof -
    fix k' show "(mp(k := None)) k' \<noteq> p" using mp(2) mp(3)[of k'] by (cases "k' = k") auto
  qed
  with mp(1) show ?thesis by (simp add: unpublished_def)
qed

lemmas frame_defs = stmt_defs frame_ok_def heap_defs in_cs_def map_preds_keep

lemma stmt_self:
  assumes st: "stmt fn t s = Some (t', g)" and ok: "frame_ok fn s t" and mo: "map_ok fn s"
  shows "frame_ok fn g t'"
proof (cases "pc t")
  case L57
  have "\<And>mp a. m s = Some mp \<Longrightarrow> mp (Do_key t) = Some a \<Longrightarrow> waits fn s (Some a)"
    by (rule map_okD[OF mo])
  with st ok L57 show ?thesis
    by (auto simp: stmt_defs frame_ok_def map_defs in_cs_def split: option.splits)
next
  case L63
  have "\<And>mp k. m s = Some mp \<Longrightarrow> mp k \<noteq> Some (length (calls s))"
  proof
    fix mp k assume "m s = Some mp" "mp k = Some (length (calls s))"
    from map_okD[OF mo this] show False by (simp add: waits_def)
  qed
  with st ok L63 show ?thesis
    by (auto simp: stmt_defs frame_ok_def owns_def map_defs in_cs_def)
next
  case L65
  from ok L65 obtain mp where mp: "m s = Some mp" by (auto simp: frame_ok_def absent_def)
  from ok L65 have u: "unpublished s (c63 t)" "c63 t \<noteq> None"
    by (auto simp: frame_ok_def owns_def)
  from registered_store[OF mp u, of "Do_key t"] st ok L65 mp show ?thesis
    by (auto simp: frame_defs)
next
  case L74
  from ok L74 have "registered s (Do_key t) (c63 t)" by (simp add: frame_ok_def)
  from registered_delete[OF this] st ok L74 show ?thesis
    by (auto simp: frame_defs)
qed (use st ok in \<open>auto simp: frame_defs absent_def split: option.splits if_splits\<close>)

subsection \<open>One statement keeps the frames of the other goroutines\<close>

lemma pair_not_cs: "pair_ok t u \<Longrightarrow> in_cs (pc t) \<Longrightarrow> \<not> in_cs (pc u)"
  by (simp add: pair_ok_def)

lemma stmt_other:
  assumes st: "stmt fn t s = Some (t', g)" and ok: "frame_ok fn s t"
    and oku: "frame_ok fn s u" and p: "pair_ok t u"
  shows "frame_ok fn g u"
proof (cases "pc t")
  case L52
  with st have "g = s\<lparr>mu := True\<rparr>" by (auto simp: stmt_defs split: if_splits)
  with other_lock[OF oku] show ?thesis by simp
next
  case L53
  with st have "g = (if m s = None then s\<lparr>m := Some Map.empty\<rparr> else s)"
    by (simp add: stmt_defs)
  with other_make[OF oku] oku show ?thesis by simp
next
  case L57
  with st have "g = s" by (auto simp: stmt_defs split: option.splits)
  with oku show ?thesis by simp
next
  case L58
  with ok have "mu s" "in_cs (pc t)" by (simp_all add: frame_ok_def in_cs_def)
  with st L58 have "g = s\<lparr>mu := False\<rparr>" by (simp add: stmt_defs)
  with other_unlock[OF oku pair_not_cs[OF p \<open>in_cs (pc t)\<close>]] show ?thesis by simp
next
  case L59
  with st have "g = s" by (auto simp: stmt_defs split: option.splits if_splits)
  with oku show ?thesis by simp
next
  case L60
  with st have "g = s" by (auto simp: stmt_defs split: option.splits if_splits)
  with oku show ?thesis by simp
next
  case L63
  with st have "g = s\<lparr>calls := calls s @ [\<lparr>wg = 0, val = None, err = None\<rparr>]\<rparr>"
    by (simp add: stmt_defs)
  with other_alloc[OF oku] show ?thesis by simp
next
  case L64
  with ok obtain a where a: "c63 t = Some a" "a < length (calls s)"
    by (auto simp: frame_ok_def owns_def)
  with st L64 have g: "g = s\<lparr>calls := (calls s)[a := (calls s ! a)\<lparr>wg := wg (calls s ! a) + 1\<rparr>]\<rparr>"
    by (simp add: stmt_defs)
  from p L64 a have "c57 u \<noteq> Some a" "c63 u \<noteq> Some a" by (auto simp: pair_ok_def)
  from other_wg[OF oku this] g show ?thesis by simp
next
  case L65
  with ok obtain a mp where a: "c63 t = Some a" "m s = Some mp" "mp (Do_key t) = None"
    by (auto simp: frame_ok_def owns_def absent_def)
  with st L65 have g: "g = s\<lparr>m := Some (mp(Do_key t \<mapsto> a))\<rparr>" by (simp add: stmt_defs)
  from p L65 a have "\<not> in_cs (pc u)" "c63 u \<noteq> Some a" by (auto simp: pair_ok_def in_cs_def)
  from other_store[OF oku a(2,3) this] g show ?thesis by simp
next
  case L66
  with ok have "mu s" "in_cs (pc t)" by (simp_all add: frame_ok_def in_cs_def)
  with st L66 have "g = s\<lparr>mu := False\<rparr>" by (simp add: stmt_defs)
  with other_unlock[OF oku pair_not_cs[OF p \<open>in_cs (pc t)\<close>]] show ?thesis by simp
next
  case L69
  with ok obtain a where a: "c63 t = Some a" "a < length (calls s)" "wg (calls s ! a) = 1"
    by (auto simp: frame_ok_def owns_def)
  let ?x = "(calls s ! a)\<lparr>val := fst (fn (nfn s)), err := snd (fn (nfn s))\<rparr>"
  from st L69 a have g: "g = s\<lparr>calls := (calls s)[a := ?x], nfn := nfn s + 1\<rparr>"
    by (simp add: stmt_defs)
  from p a have u: "c63 u \<noteq> Some a" by (auto simp: pair_ok_def)
  have "frame_ok fn (s\<lparr>calls := (calls s)[a := ?x], nfn := nfn s + 1\<rparr>) u"
    by (rule other_cell[OF oku a(2) _ u]) (simp_all add: a)
  with g show ?thesis by simp
next
  case L70
  with ok obtain a where a: "c63 t = Some a" "a < length (calls s)" "wg (calls s ! a) = 1"
    "filled fn s a"
    by (auto simp: frame_ok_def owns_def)
  let ?x = "(calls s ! a)\<lparr>wg := wg (calls s ! a) - 1\<rparr>"
  from st L70 a have "g = s\<lparr>calls := (calls s)[a := ?x]\<rparr>"
    by (simp add: stmt_defs)
  then have g: "g = s\<lparr>calls := (calls s)[a := ?x], nfn := nfn s\<rparr>" by simp
  from p a have u: "c63 u \<noteq> Some a" by (auto simp: pair_ok_def)
  have "frame_ok fn (s\<lparr>calls := (calls s)[a := ?x], nfn := nfn s\<rparr>) u"
    by (rule other_cell[OF oku a(2) _ u]) (use a in \<open>simp_all add: filled_def\<close>)
  with g show ?thesis by simp
next
  case L73
  with st have "g = s\<lparr>mu := True\<rparr>" by (auto simp: stmt_defs split: if_splits)
  with other_lock[OF oku] show ?thesis by simp
next
  case L74
  with ok have r: "registered s (Do_key t) (c63 t)" by (simp add: frame_ok_def)
  then have "c63 t \<noteq> None" by (simp add: registered_def)
  with p L74 have u: "\<not> in_cs (pc u)" "c63 u \<noteq> c63 t" by (auto simp: pair_ok_def in_cs_def)
  from st L74 have "g = s\<lparr>m := map_option (\<lambda>mp. mp(Do_key t := None)) (m s)\<rparr>"
    by (simp add: stmt_defs)
  with other_delete[OF oku r u] show ?thesis by simp
next
  case L75
  with ok have "mu s" "in_cs (pc t)" by (simp_all add: frame_ok_def in_cs_def)
  with st L75 have "g = s\<lparr>mu := False\<rparr>" by (simp add: stmt_defs)
  with other_unlock[OF oku pair_not_cs[OF p \<open>in_cs (pc t)\<close>]] show ?thesis by simp
next
  case L78
  with st have "g = s" by (auto simp: stmt_defs split: option.splits if_splits)
  with oku show ?thesis by simp
next
  case Returned
  with st show ?thesis by (simp add: stmt_defs)
next
  case Panicked
  with st show ?thesis by (simp add: stmt_defs)
qed

subsection \<open>Pairs of goroutines, the map, and the count of executions\<close>

lemma frame_valid:
  assumes "frame_ok fn s u"
  shows "c57 u = Some a \<Longrightarrow> a < length (calls s)" and "c63 u = Some a \<Longrightarrow> a < length (calls s)"
  using assms by (cases "pc u"; auto simp: frame_ok_def heap_defs)+

lemma frame_cs_mu: "frame_ok fn s u \<Longrightarrow> in_cs (pc u) \<Longrightarrow> mu s"
  by (simp add: frame_ok_def)

lemma pair_ok_sym: "pair_ok t u \<Longrightarrow> pair_ok u t"
  by (auto simp: pair_ok_def)

lemma in_cs_simps:
  "in_cs L52 = False" "in_cs L53 = True" "in_cs L57 = True" "in_cs L58 = True"
  "in_cs L59 = False" "in_cs L60 = False" "in_cs L63 = True" "in_cs L64 = True"
  "in_cs L65 = True" "in_cs L66 = True" "in_cs L69 = False" "in_cs L70 = False"
  "in_cs L73 = False" "in_cs L74 = True" "in_cs L75 = True" "in_cs L78 = False"
  "in_cs Returned = False" "in_cs Panicked = False"
  by (simp_all add: in_cs_def)

lemma stmt_pair:
  assumes st: "stmt fn t s = Some (t', g)" and ok: "frame_ok fn s t"
    and oku: "frame_ok fn s u" and p: "pair_ok t u"
  shows "pair_ok t' u"
proof -
  have f1: "in_cs (pc u) \<Longrightarrow> mu s" by (rule frame_cs_mu[OF oku])
  have f2: "c57 u \<noteq> Some (length (calls s))" "c63 u \<noteq> Some (length (calls s))"
    using frame_valid[OF oku, of "length (calls s)"] by auto
  have f3: "in_cs (pc t) \<Longrightarrow> mu s" by (rule frame_cs_mu[OF ok])
  have f4: "pc u = L64 \<or> pc u = L65 \<Longrightarrow> in_cs (pc u)" by (auto simp: in_cs_def)
  show ?thesis
    using st p f1 f2 f3 f4
    by (cases "pc t")
       (auto simp: stmt_defs pair_ok_def in_cs_simps split: option.splits if_splits)
qed

lemma map_ok_cell:
  assumes mo: "map_ok fn s" and a: "a < length (calls s)" and n: "nfn s \<le> n'"
    and x: "wg x = 0 \<longrightarrow> (\<exists>j<n'. fn j = (val x, err x))"
  shows "map_ok fn (s\<lparr>calls := (calls s)[a := x], nfn := n'\<rparr>)"
  unfolding map_ok_def
proof (intro allI impI)
  let ?s = "s\<lparr>calls := (calls s)[a := x], nfn := n'\<rparr>"
  fix mp k assume "m ?s = Some mp"
  then have mp: "m s = Some mp" by simp
  show "mp k = None \<or> waits fn ?s (mp k)"
  proof (cases "mp k")
    case None
    then show ?thesis by simp
  next
    case (Some b)
    have w: "waits fn s (Some b)" by (rule map_okD[OF mo mp Some])
    have "waits fn ?s (Some b)"
    proof (cases "b = a")
      case True
      with a x show ?thesis by (simp add: waits_def filled_def)
    next
      case False
      have "\<forall>c. Some b = Some c \<longrightarrow> c < length (calls s) \<longrightarrow>
                c < length (calls ?s) \<and> calls ?s ! c = calls s ! c"
        using False by auto
      moreover have "nfn s \<le> nfn ?s" using n by simp
      ultimately show ?thesis using w by (rule cell_kept(1))
    qed
    with Some show ?thesis by simp
  qed
qed

lemma map_ok_alloc:
  assumes mo: "map_ok fn s"
  shows "map_ok fn (s\<lparr>calls := calls s @ [x]\<rparr>)"
  unfolding map_ok_def
proof (intro allI impI)
  let ?s = "s\<lparr>calls := calls s @ [x]\<rparr>"
  fix mp k assume "m ?s = Some mp"
  then have mp: "m s = Some mp" by simp
  show "mp k = None \<or> waits fn ?s (mp k)"
  proof (cases "mp k")
    case None
    then show ?thesis by simp
  next
    case (Some b)
    have w: "waits fn s (Some b)" by (rule map_okD[OF mo mp Some])
    have "\<forall>c. Some b = Some c \<longrightarrow> c < length (calls s) \<longrightarrow>
                c < length (calls ?s) \<and> calls ?s ! c = calls s ! c"
      by (auto simp: nth_append)
    moreover have "nfn s \<le> nfn ?s" by simp
    ultimately have "waits fn ?s (Some b)" using w by (rule cell_kept(1))
    with Some show ?thesis by simp
  qed
qed

lemma waits_keep:
  "waits fn (mu_update f s) p = waits fn s p"
  "waits fn (m_update h s) p = waits fn s p"
  by (simp_all add: waits_def filled_def)

lemma map_ok_mu: "map_ok fn (s\<lparr>mu := b\<rparr>) = map_ok fn s"
  by (simp add: map_ok_def waits_keep)

lemma map_ok_make: "map_ok fn (s\<lparr>m := Some Map.empty\<rparr>)"
  by (simp add: map_ok_def)

lemma map_ok_store:
  assumes mo: "map_ok fn s" and mp: "m s = Some mp" and w: "waits fn s p"
  shows "map_ok fn (s\<lparr>m := Some (mp(k := p))\<rparr>)"
  unfolding map_ok_def
proof (intro allI impI)
  fix mp' k' assume "m (s\<lparr>m := Some (mp(k := p))\<rparr>) = Some mp'"
  then have e: "mp' = mp(k := p)" by simp
  show "mp' k' = None \<or> waits fn (s\<lparr>m := Some (mp(k := p))\<rparr>) (mp' k')"
  proof (cases "k' = k")
    case True
    with e w show ?thesis by (simp add: waits_keep)
  next
    case False
    with e have "mp' k' = mp k'" by simp
    with mo mp show ?thesis by (simp add: map_ok_def waits_keep)
  qed
qed

lemma map_ok_delete:
  assumes mo: "map_ok fn s"
  shows "map_ok fn (s\<lparr>m := map_option (\<lambda>mp. mp(k := None)) (m s)\<rparr>)"
  unfolding map_ok_def
proof (intro allI impI)
  let ?s = "s\<lparr>m := map_option (\<lambda>mp. mp(k := None)) (m s)\<rparr>"
  fix mp' k' assume "m ?s = Some mp'"
  then obtain mp where mp: "m s = Some mp" "mp' = mp(k := None)" by auto
  show "mp' k' = None \<or> waits fn ?s (mp' k')"
  proof (cases "k' = k")
    case True
    with mp show ?thesis by simp
  next
    case False
    with mp have "mp' k' = mp k'" by simp
    with mo mp(1) show ?thesis by (simp add: map_ok_def waits_keep)
  qed
qed

lemma stmt_map:
  assumes st: "stmt fn t s = Some (t', g)" and ok: "frame_ok fn s t" and mo: "map_ok fn s"
  shows "map_ok fn g"
proof (cases "pc t")
  case L52
  with st have "g = s\<lparr>mu := True\<rparr>" by (auto simp: stmt_defs split: if_splits)
  with mo show ?thesis by (simp add: map_ok_mu)
next
  case L53
  with st have "g = (if m s = None then s\<lparr>m := Some Map.empty\<rparr> else s)"
    by (simp add: stmt_defs)
  with mo map_ok_make[of fn s] show ?thesis by simp
next
  case L57
  with st have "g = s" by (auto simp: stmt_defs split: option.splits)
  with mo show ?thesis by simp
next
  case L58
  with st have "g = s\<lparr>mu := False\<rparr> \<or> g = s" by (auto simp: stmt_defs split: if_splits)
  with mo show ?thesis by (auto simp: map_ok_mu)
next
  case L59
  with st have "g = s" by (auto simp: stmt_defs split: option.splits if_splits)
  with mo show ?thesis by simp
next
  case L60
  with st have "g = s" by (auto simp: stmt_defs split: option.splits if_splits)
  with mo show ?thesis by simp
next
  case L63
  with st have "g = s\<lparr>calls := calls s @ [\<lparr>wg = 0, val = None, err = None\<rparr>]\<rparr>"
    by (simp add: stmt_defs)
  with map_ok_alloc[OF mo] show ?thesis by simp
next
  case L64
  with ok obtain a where a: "c63 t = Some a" "a < length (calls s)"
    by (auto simp: frame_ok_def owns_def)
  let ?x = "(calls s ! a)\<lparr>wg := wg (calls s ! a) + 1\<rparr>"
  from st L64 a have "g = s\<lparr>calls := (calls s)[a := ?x]\<rparr>" by (simp add: stmt_defs)
  then have g: "g = s\<lparr>calls := (calls s)[a := ?x], nfn := nfn s\<rparr>" by simp
  have "map_ok fn (s\<lparr>calls := (calls s)[a := ?x], nfn := nfn s\<rparr>)"
    by (rule map_ok_cell[OF mo a(2)]) simp_all
  with g show ?thesis by simp
next
  case L65
  with ok obtain a mp where a: "c63 t = Some a" "m s = Some mp" "a < length (calls s)"
    "wg (calls s ! a) = 1"
    by (auto simp: frame_ok_def owns_def absent_def)
  with st L65 have g: "g = s\<lparr>m := Some (mp(Do_key t := c63 t))\<rparr>" by (simp add: stmt_defs)
  have "waits fn s (c63 t)" using a by (simp add: waits_def)
  from map_ok_store[OF mo a(2) this] g show ?thesis by simp
next
  case L66
  with st have "g = s\<lparr>mu := False\<rparr> \<or> g = s" by (auto simp: stmt_defs split: if_splits)
  with mo show ?thesis by (auto simp: map_ok_mu)
next
  case L69
  with ok obtain a where a: "c63 t = Some a" "a < length (calls s)" "wg (calls s ! a) = 1"
    by (auto simp: frame_ok_def owns_def)
  let ?x = "(calls s ! a)\<lparr>val := fst (fn (nfn s)), err := snd (fn (nfn s))\<rparr>"
  from st L69 a have g: "g = s\<lparr>calls := (calls s)[a := ?x], nfn := nfn s + 1\<rparr>"
    by (simp add: stmt_defs)
  have "map_ok fn (s\<lparr>calls := (calls s)[a := ?x], nfn := nfn s + 1\<rparr>)"
    by (rule map_ok_cell[OF mo a(2)]) (simp_all add: a)
  with g show ?thesis by simp
next
  case L70
  with ok obtain a where a: "c63 t = Some a" "a < length (calls s)" "wg (calls s ! a) = 1"
    "filled fn s a"
    by (auto simp: frame_ok_def owns_def)
  let ?x = "(calls s ! a)\<lparr>wg := wg (calls s ! a) - 1\<rparr>"
  from st L70 a have "g = s\<lparr>calls := (calls s)[a := ?x]\<rparr>" by (simp add: stmt_defs)
  then have g: "g = s\<lparr>calls := (calls s)[a := ?x], nfn := nfn s\<rparr>" by simp
  have "map_ok fn (s\<lparr>calls := (calls s)[a := ?x], nfn := nfn s\<rparr>)"
    by (rule map_ok_cell[OF mo a(2)]) (use a in \<open>simp_all add: filled_def\<close>)
  with g show ?thesis by simp
next
  case L73
  with st have "g = s\<lparr>mu := True\<rparr>" by (auto simp: stmt_defs split: if_splits)
  with mo show ?thesis by (simp add: map_ok_mu)
next
  case L74
  with st have "g = s\<lparr>m := map_option (\<lambda>mp. mp(Do_key t := None)) (m s)\<rparr>"
    by (simp add: stmt_defs)
  with map_ok_delete[OF mo] show ?thesis by simp
next
  case L75
  with st have "g = s\<lparr>mu := False\<rparr> \<or> g = s" by (auto simp: stmt_defs split: if_splits)
  with mo show ?thesis by (auto simp: map_ok_mu)
next
  case L78
  with st have "g = s" by (auto simp: stmt_defs split: option.splits if_splits)
  with mo show ?thesis by simp
next
  case Returned
  with st show ?thesis by (simp add: stmt_defs)
next
  case Panicked
  with st show ?thesis by (simp add: stmt_defs)
qed

end
